theory Spec2Isabelle
  imports Main
begin

section \<open>The concurrency handler (lib/concurrency-handler.js)\<close>

text \<open>
  The module keeps its state in module-level variables and hands every submitted
  request a closure \<open>release\<close> over a private \<open>config\<close> object. The embedding
  makes the state a record that every function takes and returns, keeps the
  \<open>config\<close> objects in a store indexed by a request identifier (the closure
  \<open>release\<close> of request \<open>r\<close> is the value \<open>Token r\<close>), and keeps JavaScript
  arrays in a second store indexed by address, because the arguments array of a
  request is shared by reference with the category defaults and with the debug copy.

  Modelling choices:
  \<^item> JavaScript numbers (amounts, maxima, the consumed totals) are integers;
    \<open>NaN\<close> and rounding are outside the model.
  \<^item> A thrown string is a value of type \<open>error\<close> carrying the numbers that the
    source concatenates into the message. A \<open>throw\<close> keeps every assignment made
    before it, so each function returns the state together with its outcome.
  \<^item> User code (the callback of a request, a drain callback) is a function from
    what it is called with to the list of calls it makes on the handler before it
    returns. Work that finishes later is a later top-level call. The callback of a
    request runs at most once, so nothing is lost by making it a function of its
    arguments; a drain callback makes the same calls each time it runs for a
    category until another one is registered.
  \<^item> The recursion between \<open>next\<close>, the callbacks and the public functions that
    callbacks call is bounded by a fuel argument; running out of it is the outcome
    \<open>OutOfFuel\<close>.
  \<^item> \<open>next\<close> and \<open>max\<close> are written \<open>next'\<close> and \<open>max'\<close>.
  \<^item> Timestamps (\<open>new Date()\<close>) are reduced to whether the field has been set.
    The \<open>context\<close> object is passed through to the callback untouched and is
    left out, as is the accessor \<open>getIndex\<close> that debug mode adds.
  \<^item> Category names inherited from \<open>Object.prototype\<close> are outside the model:
    the dictionaries are maps from strings.
  \<^item> \<open>createCategory\<close> writes the five dictionaries together and nothing removes
    a key. A read of \<open>max\<close>, \<open>consumed\<close>, \<open>categoryRunCount\<close> or \<open>defaults\<close> at a
    key they do not have, which no call reaches, yields 0 or the initial defaults;
    in \<open>next\<close> a read of \<open>queues\<close> at such a key raises the TypeError of the
    source.
  \<^item> A request identifier or an array address that refers to nothing cannot arise in
    the source, where they are object references; the model raises a TypeError,
    or reads an empty array, there.
\<close>

subsection \<open>Values, errors, user code\<close>

type_synonym rid = nat
type_synonym addr = nat

datatype arg = Token rid | Val int

datatype error =
    ConfigurationError int
  | AdmissionError string int int
  | ExpectedConfiguration
  | RequiresCallback
  | TypeError string
  | UserError

datatype 'a res = Ret 'a | Threw error | OutOfFuel

datatype args_in = ArgsAbsent | ArgsLiteral "arg list" | ArgsRef addr

datatype action =
    CallRelease rid
  | CallQueue configIn
  | CallSetMax "string option" int
  | CallGetMax "string option"
  | CallOnDrain "string option" "(string \<Rightarrow> action list) option"
  | CallGetRunning "string option"
  | CallGetFree "string option"
  | CallSetDefaultCategory "string option"
  | CallSetCategoryDefaults "string option" newDefaults
  | Raise
and configIn =
    CUndefined
  | CNull
  | CPrimitive bool
  | CObject cfields
  | CBare cfields
  | CTrap
and cfields =
    CFields
      (in_callback: "(arg list \<Rightarrow> action list) option")
      (in_arguments: args_in)
      (in_category: "string option")
      (in_amount: "int option")
      (in_curryRelease: "bool option")
      (in_debug: "bool option")
      (in_unshift: "bool option")
and newDefaults =
    NewDefaults
      (nd_amount: "int option")
      (nd_curryRelease: "bool option")
      (nd_debug: "bool option")
      (nd_arguments: "args_in option")
      (nd_unshift: "bool option")
      (nd_onDrain: "(string \<Rightarrow> action list) option option")

text \<open>
  \<open>CPrimitive b\<close> is a number, string or boolean passed where the configuration
  object is expected, \<open>b\<close> its truthiness. \<open>CObject\<close> is an ordinary object: one
  that inherits \<open>hasOwnProperty\<close> from \<open>Object.prototype\<close> and whose property
  reads return. \<open>CBare\<close> is an object on which \<open>hasOwnProperty\<close> cannot be
  called, such as \<open>Object.create( null )\<close> or \<open>{ hasOwnProperty: 1 }\<close>; \<open>CTrap\<close>
  is an object whose \<open>callback\<close> property is a getter that raises. A field of
  \<open>cfields\<close> that is \<open>None\<close> is a property the object does not have;
  \<open>in_callback = None\<close> also stands for a \<open>callback\<close> property that is not a
  function. \<open>ArgsLiteral xs\<close> is an array built for this call, \<open>ArgsRef a\<close> an
  array the caller already holds.
\<close>

datatype jsval = JUndefined | JNull | JBoolean bool | JPrimitive bool | JObject | JFunction

datatype event = Invoke rid "arg list" | Drained string

subsection \<open>The state\<close>

record categoryDefaults =
  d_amount :: int
  d_curryRelease :: bool
  d_debug :: bool
  d_arguments :: "addr option"
  d_unshift :: bool
  d_onDrain :: "(string \<Rightarrow> action list) option"

record config =
  category :: string
  callback :: "(arg list \<Rightarrow> action list) option"
  arguments :: addr
  curryRelease :: bool
  amount :: int
  debug :: bool
  unshift :: bool
  inQueue :: bool
  released :: bool
  started :: bool
  running :: bool
  completed :: bool
  queued :: bool
  globalRunIndex :: "nat option"
  categoryRunIndex :: "nat option"

text \<open>A request is its \<open>config\<close> object together with the \<open>debug\<close> property of
  its \<open>release\<close> function.\<close>

record request = config +
  release_debug :: "config option"

record state =
  globalRunCount :: nat
  categoryRunCount :: "string \<rightharpoonup> nat"
  queues :: "string \<rightharpoonup> rid list"
  max' :: "string \<rightharpoonup> int"
  consumed :: "string \<rightharpoonup> int"
  defaultCategory :: "string option"
  defaults :: "string \<rightharpoonup> categoryDefaults"
  reqs :: "request list"
  arrays :: "arg list list"
  trace :: "event list"

definition init_state :: state where
  "init_state = \<lparr> globalRunCount = 0, categoryRunCount = Map.empty, queues = Map.empty,
     max' = Map.empty, consumed = Map.empty, defaultCategory = None, defaults = Map.empty,
     reqs = [], arrays = [], trace = [] \<rparr>"

definition initial_defaults :: categoryDefaults where
  "initial_defaults = \<lparr> d_amount = 1, d_curryRelease = True, d_debug = False,
     d_arguments = None, d_unshift = False, d_onDrain = None \<rparr>"

definition num_at :: "(string \<rightharpoonup> 'a::zero) \<Rightarrow> string \<Rightarrow> 'a" where
  "num_at m c = (case m c of Some v \<Rightarrow> v | None \<Rightarrow> 0)"

definition defaults_at :: "state \<Rightarrow> string \<Rightarrow> categoryDefaults" where
  "defaults_at s c = (case defaults s c of Some d \<Rightarrow> d | None \<Rightarrow> initial_defaults)"

definition lookupReq :: "state \<Rightarrow> rid \<Rightarrow> request option" where
  "lookupReq s r = (if r < length (reqs s) then Some (reqs s ! r) else None)"

definition arr :: "state \<Rightarrow> addr \<Rightarrow> arg list" where
  "arr s a = (if a < length (arrays s) then arrays s ! a else [])"

definition log_event :: "event \<Rightarrow> state \<Rightarrow> state" where
  "log_event e s = s\<lparr> trace := trace s @ [e] \<rparr>"

subsection \<open>createCategory (lines 56-96)\<close>

definition createCategory :: "string option \<Rightarrow> state \<Rightarrow> string \<times> state" where
  "createCategory cat s =
    (let s1 = (if cat = None \<and> defaultCategory s = None
               then s\<lparr> defaultCategory := Some [] \<rparr> else s);
         c = (case cat of
                None \<Rightarrow> (case defaultCategory s1 of Some d \<Rightarrow> d | None \<Rightarrow> [])
              | Some x \<Rightarrow> x);
         s2 = (if defaults s1 c = None
               then s1\<lparr> queues := (queues s1)(c \<mapsto> []),
                        categoryRunCount := (categoryRunCount s1)(c \<mapsto> 0),
                        max' := (max' s1)(c \<mapsto> 1),
                        consumed := (consumed s1)(c \<mapsto> 0),
                        defaults := (defaults s1)(c \<mapsto> initial_defaults) \<rparr>
               else s1);
         s3 = (if defaultCategory s2 = None
               then s2\<lparr> defaultCategory := Some c \<rparr> else s2)
     in (c, s3))"

subsection \<open>duplicateDebugData (lines 160-170)\<close>

text \<open>Every property of \<open>config\<close> except \<open>release\<close> is assigned to a fresh object:
  numbers and booleans are copied, the arguments array is copied as a reference.\<close>

definition duplicateDebugData :: "request \<Rightarrow> request" where
  "duplicateDebugData cfg = cfg\<lparr> release_debug := Some (config.truncate cfg) \<rparr>"

subsection \<open>The body of next (lines 124-148) and of release (lines 320-352)\<close>

definition admit :: "string \<Rightarrow> rid \<Rightarrow> rid list \<Rightarrow> request \<Rightarrow> state \<Rightarrow> state" where
  "admit c r rest nextItem s =
    (let a = arguments nextItem;
         item1 = nextItem\<lparr> inQueue := False \<rparr>;
         item2 = (if debug nextItem
                  then duplicateDebugData (item1\<lparr> started := True, running := True,
                         globalRunIndex := Some (globalRunCount s),
                         categoryRunIndex := Some (num_at (categoryRunCount s) c) \<rparr>)
                  else item1)
     in s\<lparr> queues := (queues s)(c \<mapsto> rest),
           consumed := (consumed s)(c \<mapsto> num_at (consumed s) c + amount nextItem),
           arrays := (if curryRelease nextItem
                      then (arrays s)[a := Token r # arr s a] else arrays s),
           reqs := (reqs s)[r := item2],
           globalRunCount := globalRunCount s + 1,
           categoryRunCount := (categoryRunCount s)(c \<mapsto> num_at (categoryRunCount s) c + 1) \<rparr>)"

definition releaseUpdate :: "rid \<Rightarrow> request \<Rightarrow> state \<Rightarrow> state" where
  "releaseUpdate r cfg s =
    (let c = category cfg;
         cfg1 = (if debug cfg then cfg\<lparr> running := False, completed := True \<rparr> else cfg);
         cfg2 = cfg1\<lparr> released := True \<rparr>;
         cfg3 = (if debug cfg then duplicateDebugData cfg2 else cfg2);
         s1 = (if inQueue cfg
               then s\<lparr> queues := (queues s)(c := map_option (remove1 r) (queues s c)) \<rparr>
               else s\<lparr> consumed := (consumed s)(c \<mapsto> num_at (consumed s) c - amount cfg) \<rparr>)
     in s1\<lparr> reqs := (reqs s1)[r := cfg3] \<rparr>)"

subsection \<open>The body of queue (lines 295-382)\<close>

definition resolveArguments :: "args_in \<Rightarrow> addr option \<Rightarrow> state \<Rightarrow> addr \<times> state" where
  "resolveArguments ai dflt s =
    (let fresh = (\<lambda>xs. (length (arrays s), s\<lparr> arrays := arrays s @ [xs] \<rparr>));
         fallback = (case dflt of Some a \<Rightarrow> (a, s) | None \<Rightarrow> fresh [])
     in case ai of
          ArgsLiteral xs \<Rightarrow> fresh xs
        | ArgsRef a \<Rightarrow> (if a < length (arrays s) then (a, s) else fallback)
        | ArgsAbsent \<Rightarrow> fallback)"

definition fields_of :: "configIn \<Rightarrow> cfields" where
  "fields_of cin = (case cin of CObject f \<Rightarrow> f | CBare f \<Rightarrow> f
     | _ \<Rightarrow> CFields None ArgsAbsent None None None None None)"

definition enqueue :: "cfields \<Rightarrow> state \<Rightarrow> string \<times> rid \<times> state" where
  "enqueue f s =
    (let (c, s1) = createCategory (in_category f) s;
         d = defaults_at s1 c;
         (a, s2) = resolveArguments (in_arguments f) (d_arguments d) s1;
         dbg = (case in_debug f of Some b \<Rightarrow> b | None \<Rightarrow> d_debug d);
         cfg = \<lparr> category = c, callback = in_callback f, arguments = a,
                 curryRelease = (case in_curryRelease f of Some b \<Rightarrow> b | None \<Rightarrow> d_curryRelease d),
                 amount = (case in_amount f of Some n \<Rightarrow> n | None \<Rightarrow> d_amount d),
                 debug = dbg,
                 unshift = (case in_unshift f of Some b \<Rightarrow> b | None \<Rightarrow> d_unshift d),
                 inQueue = True, released = False,
                 started = False, running = False, completed = False, queued = dbg,
                 globalRunIndex = None, categoryRunIndex = None,
                 release_debug = None \<rparr>;
         cfg' = (if dbg then duplicateDebugData cfg else cfg);
         r = length (reqs s2);
         q = (case queues s2 c of Some q \<Rightarrow> q | None \<Rightarrow> [])
     in (c, r, s2\<lparr> reqs := reqs s2 @ [cfg'],
                    queues := (queues s2)(c \<mapsto> (if unshift cfg then r # q else q @ [r])) \<rparr>))"

subsection \<open>The sanity checks of queue (lines 288-293)\<close>

text \<open>\<open>! configIn instanceof Object\<close> parses as \<open>(! configIn) instanceof Object\<close>.\<close>

definition truthy :: "jsval \<Rightarrow> bool" where
  "truthy v = (case v of JUndefined \<Rightarrow> False | JNull \<Rightarrow> False | JBoolean b \<Rightarrow> b
     | JPrimitive b \<Rightarrow> b | JObject \<Rightarrow> True | JFunction \<Rightarrow> True)"

definition js_not :: "jsval \<Rightarrow> jsval" where
  "js_not v = JBoolean (\<not> truthy v)"

definition instanceof_Object :: "jsval \<Rightarrow> bool" where
  "instanceof_Object v = (case v of JObject \<Rightarrow> True | JFunction \<Rightarrow> True | _ \<Rightarrow> False)"

definition instanceof_Function :: "jsval \<Rightarrow> bool" where
  "instanceof_Function v = (case v of JFunction \<Rightarrow> True | _ \<Rightarrow> False)"

definition value_of :: "configIn \<Rightarrow> jsval" where
  "value_of cin = (case cin of CUndefined \<Rightarrow> JUndefined | CNull \<Rightarrow> JNull
     | CPrimitive b \<Rightarrow> JPrimitive b | CObject f \<Rightarrow> JObject | CBare f \<Rightarrow> JObject
     | CTrap \<Rightarrow> JObject)"

text \<open>Reading \<open>configIn.callback\<close>: a property read on \<open>undefined\<close> or \<open>null\<close>
  throws a TypeError, and a getter can raise an error of its own.\<close>

definition read_callback :: "configIn \<Rightarrow> error + jsval" where
  "read_callback cin = (case cin of
       CUndefined \<Rightarrow> Inl (TypeError ''Cannot read properties of undefined (reading callback)'')
     | CNull \<Rightarrow> Inl (TypeError ''Cannot read properties of null (reading callback)'')
     | CPrimitive b \<Rightarrow> Inr JUndefined
     | CObject f \<Rightarrow> Inr (case in_callback f of Some g \<Rightarrow> JFunction | None \<Rightarrow> JUndefined)
     | CBare f \<Rightarrow> Inr (case in_callback f of Some g \<Rightarrow> JFunction | None \<Rightarrow> JUndefined)
     | CTrap \<Rightarrow> Inl UserError)"

text \<open>Line 305 calls \<open>configIn.hasOwnProperty\<close>, after \<open>createCategory\<close> has run at
  line 296 and before the request is put into the queue. The call raises a TypeError
  when the property is not a function.\<close>

definition has_hasOwnProperty :: "configIn \<Rightarrow> bool" where
  "has_hasOwnProperty cin = (case cin of CBare f \<Rightarrow> False | _ \<Rightarrow> True)"


subsection \<open>The accessors and setters that do not sweep (lines 205-279)\<close>

definition getMax :: "string option \<Rightarrow> state \<Rightarrow> int \<times> state" where
  "getMax cat s = (let (c, s1) = createCategory cat s in (num_at (max' s1) c, s1))"

definition getRunning :: "string option \<Rightarrow> state \<Rightarrow> int \<times> state" where
  "getRunning cat s = (let (c, s1) = createCategory cat s in (num_at (consumed s1) c, s1))"

definition getFree :: "string option \<Rightarrow> state \<Rightarrow> int \<times> state" where
  "getFree cat s =
    (let (c, s1) = createCategory cat s in (num_at (max' s1) c - num_at (consumed s1) c, s1))"

definition onDrain :: "string option \<Rightarrow> (string \<Rightarrow> action list) option \<Rightarrow> state \<Rightarrow> state" where
  "onDrain cat cb s =
    (let (c, s1) = createCategory cat s
     in s1\<lparr> defaults := (defaults s1)(c \<mapsto> (defaults_at s1 c)\<lparr> d_onDrain := cb \<rparr>) \<rparr>)"

definition setDefaultCategory :: "string option \<Rightarrow> state \<Rightarrow> state" where
  "setDefaultCategory cat s =
    (let (c, s1) = createCategory cat s in s1\<lparr> defaultCategory := Some c \<rparr>)"

definition setCategoryDefaults :: "string option \<Rightarrow> newDefaults \<Rightarrow> state \<Rightarrow> state" where
  "setCategoryDefaults cat nd s =
    (let (c, s1) = createCategory cat s;
         d = defaults_at s1 c;
         (ao, s2) = (case nd_arguments nd of
                       None \<Rightarrow> (d_arguments d, s1)
                     | Some ArgsAbsent \<Rightarrow> (None, s1)
                     | Some (ArgsLiteral xs) \<Rightarrow>
                         (Some (length (arrays s1)), s1\<lparr> arrays := arrays s1 @ [xs] \<rparr>)
                     | Some (ArgsRef a) \<Rightarrow>
                         (if a < length (arrays s1) then Some a else None, s1));
         d' = d\<lparr> d_amount := (case nd_amount nd of Some n \<Rightarrow> n | None \<Rightarrow> d_amount d),
                 d_curryRelease := (case nd_curryRelease nd of Some b \<Rightarrow> b | None \<Rightarrow> d_curryRelease d),
                 d_debug := (case nd_debug nd of Some b \<Rightarrow> b | None \<Rightarrow> d_debug d),
                 d_arguments := ao,
                 d_unshift := (case nd_unshift nd of Some b \<Rightarrow> b | None \<Rightarrow> d_unshift d),
                 d_onDrain := (case nd_onDrain nd of Some f \<Rightarrow> f | None \<Rightarrow> d_onDrain d) \<rparr>
     in s2\<lparr> defaults := (defaults s2)(c \<mapsto> d') \<rparr>)"

subsection \<open>next (lines 99-156), release (313-356), queue (282-387), setMax (176-202)\<close>

text \<open>An exception raised by a callee passes through the caller, which has no
  \<open>try\<close>: the caller's continuation runs only after a normal return.\<close>

definition continue_with ::
  "'a res \<times> state \<Rightarrow> ('a \<Rightarrow> state \<Rightarrow> 'b res \<times> state) \<Rightarrow> 'b res \<times> state" where
  "continue_with rs k = (case rs of
       (Ret u, s) \<Rightarrow> k u s
     | (Threw e, s) \<Rightarrow> (Threw e, s)
     | (OutOfFuel, s) \<Rightarrow> (OutOfFuel, s))"

text \<open>The event \<open>Invoke r args\<close> records that \<open>next\<close> reached line 152 for request
  \<open>r\<close> and applied its callback to \<open>args\<close>; \<open>Drained c\<close> that it reached line 106.\<close>

function (sequential)
    next' :: "nat \<Rightarrow> string \<Rightarrow> state \<Rightarrow> unit res \<times> state"
and call_user :: "nat \<Rightarrow> action list \<Rightarrow> state \<Rightarrow> unit res \<times> state"
and do_action :: "nat \<Rightarrow> action \<Rightarrow> state \<Rightarrow> unit res \<times> state"
and release :: "nat \<Rightarrow> rid \<Rightarrow> state \<Rightarrow> unit res \<times> state"
and queue :: "nat \<Rightarrow> configIn \<Rightarrow> state \<Rightarrow> rid res \<times> state"
and setMax :: "nat \<Rightarrow> string option \<Rightarrow> int \<Rightarrow> state \<Rightarrow> unit res \<times> state"
where
  "next' 0 c s = (OutOfFuel, s)"
| "next' (Suc n) c s =
    (case queues s c of
       None \<Rightarrow> (Threw (TypeError ''Cannot read properties of undefined (reading length)''), s)
     | Some [] \<Rightarrow>
         (if num_at (consumed s) c = 0
          then (case d_onDrain (defaults_at s c) of
                  Some f \<Rightarrow> call_user n (f c) (log_event (Drained c) s)
                | None \<Rightarrow> (Ret (), s))
          else (Ret (), s))
     | Some (r # rest) \<Rightarrow>
         (case lookupReq s r of
            None \<Rightarrow> (Threw (TypeError ''Cannot read properties of undefined (reading amount)''), s)
          | Some nextItem \<Rightarrow>
              if num_at (consumed s) c + amount nextItem > num_at (max' s) c
              then (if amount nextItem > num_at (max' s) c
                    then (Threw (AdmissionError c (amount nextItem) (num_at (max' s) c)), s)
                    else (Ret (), s))
              else (let s1 = admit c r rest nextItem s;
                        args = arr s1 (arguments nextItem);
                        s2 = log_event (Invoke r args) s1
                    in case callback nextItem of
                         None \<Rightarrow> (Threw (TypeError ''Cannot read properties of undefined (reading apply)''), s2)
                       | Some f \<Rightarrow>
                           continue_with (call_user n (f args) s2) (\<lambda>u s3. next' n c s3))))"
| "call_user n [] s = (Ret (), s)"
| "call_user 0 (a # as) s = (OutOfFuel, s)"
| "call_user (Suc n) (a # as) s =
    continue_with (do_action n a s) (\<lambda>u s1. call_user n as s1)"
| "do_action 0 a s = (OutOfFuel, s)"
| "do_action (Suc n) a s =
    (case a of
       CallRelease r \<Rightarrow> release n r s
     | CallQueue cin \<Rightarrow> continue_with (queue n cin s) (\<lambda>t s1. (Ret (), s1))
     | CallSetMax cat amt \<Rightarrow> setMax n cat amt s
     | CallGetMax cat \<Rightarrow> (Ret (), snd (getMax cat s))
     | CallOnDrain cat cb \<Rightarrow> (Ret (), onDrain cat cb s)
     | CallGetRunning cat \<Rightarrow> (Ret (), snd (getRunning cat s))
     | CallGetFree cat \<Rightarrow> (Ret (), snd (getFree cat s))
     | CallSetDefaultCategory cat \<Rightarrow> (Ret (), setDefaultCategory cat s)
     | CallSetCategoryDefaults cat nd \<Rightarrow> (Ret (), setCategoryDefaults cat nd s)
     | Raise \<Rightarrow> (Threw UserError, s))"
| "release 0 r s = (OutOfFuel, s)"
| "release (Suc n) r s =
    (case lookupReq s r of
       None \<Rightarrow> (Threw (TypeError ''release is not a function''), s)
     | Some cfg \<Rightarrow>
         if released cfg then (Ret (), s)
         else next' n (category cfg) (releaseUpdate r cfg s))"
| "queue 0 cin s = (OutOfFuel, s)"
| "queue (Suc n) cin s =
    (if instanceof_Object (js_not (value_of cin)) then (Threw ExpectedConfiguration, s)
     else case read_callback cin of
            Inl e \<Rightarrow> (Threw e, s)
          | Inr cb \<Rightarrow>
              if instanceof_Function (js_not cb) then (Threw RequiresCallback, s)
              else if \<not> has_hasOwnProperty cin
              then (Threw (TypeError ''configIn.hasOwnProperty is not a function''),
                    snd (createCategory (in_category (fields_of cin)) s))
              else (case enqueue (fields_of cin) s of
                      (c, r, s1) \<Rightarrow> continue_with (next' n c s1) (\<lambda>u s2. (Ret r, s2))))"
| "setMax 0 cat amt s = (OutOfFuel, s)"
| "setMax (Suc n) cat amt s =
    (if 0 \<ge> amt then (Threw (ConfigurationError amt), s)
     else (case createCategory cat s of
             (c, s1) \<Rightarrow> next' n c (s1\<lparr> max' := (max' s1)(c \<mapsto> amt) \<rparr>)))"
  by pat_completeness auto

termination
  by (relation "measure (\<lambda>x. case x of
         Inl (Inl (n, _)) \<Rightarrow> n | Inl (Inr (Inl (n, _))) \<Rightarrow> n | Inl (Inr (Inr (n, _))) \<Rightarrow> n
       | Inr (Inl (n, _)) \<Rightarrow> n | Inr (Inr (Inl (n, _))) \<Rightarrow> n | Inr (Inr (Inr (n, _))) \<Rightarrow> n)")
     auto

subsection \<open>What user code can do to the objects it holds\<close>

text \<open>The \<open>debug\<close> property of a release function is an ordinary object: user code
  can assign to its properties, and can change the array that its \<open>arguments\<close>
  property refers to.\<close>

definition debug_arguments :: "state \<Rightarrow> rid \<Rightarrow> addr option" where
  "debug_arguments s r = (case lookupReq s r of
       None \<Rightarrow> None
     | Some q \<Rightarrow> map_option arguments (release_debug q))"

definition write_debug_arguments :: "rid \<Rightarrow> arg list \<Rightarrow> state \<Rightarrow> state" where
  "write_debug_arguments r xs s = (case debug_arguments s r of
       None \<Rightarrow> s
     | Some a \<Rightarrow> s\<lparr> arrays := (arrays s)[a := xs] \<rparr>)"

definition write_debug :: "rid \<Rightarrow> (config \<Rightarrow> config) \<Rightarrow> state \<Rightarrow> state" where
  "write_debug r g s = (case lookupReq s r of
       None \<Rightarrow> s
     | Some q \<Rightarrow> s\<lparr> reqs := (reqs s)[r := q\<lparr> release_debug := map_option g (release_debug q) \<rparr>] \<rparr>)"

subsection \<open>Reachable states and the quantities the properties speak of\<close>

text \<open>A state is reachable when a user program, a sequence of calls on the public
  functions and of writes to debug objects, leads to it from the state in which
  the module is loaded. A call may have returned or raised; a call cut short by the
  fuel bound leaves a state that the source passes through.\<close>

inductive reachable :: "state \<Rightarrow> bool" where
  reach_init: "reachable init_state"
| reach_call: "reachable s \<Longrightarrow> reachable (snd (call_user n acts s))"
| reach_write_arguments: "reachable s \<Longrightarrow> reachable (write_debug_arguments r xs s)"
| reach_write_debug: "reachable s \<Longrightarrow> reachable (write_debug r g s)"

text \<open>The assignments that the functions make, one rule for each block that runs
  without calling user code.\<close>

inductive basic :: "state \<Rightarrow> state \<Rightarrow> bool" where
  b_create: "basic s (snd (createCategory cat s))"
| b_drain: "queues s c = Some [] \<Longrightarrow> num_at (consumed s) c = 0 \<Longrightarrow>
     basic s (log_event (Drained c) s)"
| b_admit: "queues s c = Some (r # rest) \<Longrightarrow> lookupReq s r = Some item \<Longrightarrow>
     num_at (consumed s) c + amount item \<le> num_at (max' s) c \<Longrightarrow>
     s1 = admit c r rest item s \<Longrightarrow>
     basic s (log_event (Invoke r (arr s1 (arguments item))) s1)"
| b_release: "lookupReq s r = Some cfg \<Longrightarrow> \<not> released cfg \<Longrightarrow>
     basic s (releaseUpdate r cfg s)"
| b_enqueue: "basic s (snd (snd (enqueue f s)))"
| b_setMax: "0 < amt \<Longrightarrow> createCategory cat s = (c, s1) \<Longrightarrow>
     basic s (s1\<lparr> max' := (max' s1)(c \<mapsto> amt) \<rparr>)"
| b_onDrain: "basic s (onDrain cat cb s)"
| b_setDefaultCategory: "basic s (setDefaultCategory cat s)"
| b_setCategoryDefaults: "basic s (setCategoryDefaults cat nd s)"
| b_write_arguments: "basic s (write_debug_arguments r xs s)"
| b_write_debug: "basic s (write_debug r g s)"

text \<open>A request is running when it has left the queue and has not been released.\<close>

definition is_running :: "string \<Rightarrow> request \<Rightarrow> bool" where
  "is_running c q = (category q = c \<and> \<not> inQueue q \<and> \<not> released q)"

definition running_sum :: "state \<Rightarrow> string \<Rightarrow> int" where
  "running_sum s c = (\<Sum>q\<leftarrow>reqs s. if is_running c q then amount q else 0)"

definition queue_ok :: "state \<Rightarrow> bool" where
  "queue_ok s = (\<forall>c q. queues s c = Some q \<longrightarrow>
     distinct q \<and> (\<forall>r\<in>set q. r < length (reqs s) \<and> category (reqs s ! r) = c
        \<and> inQueue (reqs s ! r) \<and> \<not> released (reqs s ! r)))"

definition categories_ok :: "state \<Rightarrow> bool" where
  "categories_ok s = (\<forall>r < length (reqs s). defaults s (category (reqs s ! r)) \<noteq> None)"

definition consumed_ok :: "state \<Rightarrow> bool" where
  "consumed_ok s = (\<forall>c. num_at (consumed s) c = running_sum s c)"

definition consistent :: "state \<Rightarrow> bool" where
  "consistent s = (categories_ok s \<and> queue_ok s \<and> consumed_ok s)"

text \<open>The errors that the handler and its callers can raise, as opposed to the two
  that the sanity checks of \<open>queue\<close> name.\<close>

definition expected_error :: "error \<Rightarrow> bool" where
  "expected_error e = (case e of
       ConfigurationError a \<Rightarrow> a \<le> 0
     | ExpectedConfiguration \<Rightarrow> False
     | RequiresCallback \<Rightarrow> False
     | _ \<Rightarrow> True)"

subsection \<open>Callbacks used in the examples\<close>

text \<open>\<open>later\<close> starts work that finishes after the callback has returned (the
  \<open>setTimeout\<close> of the README and of test.js); \<open>mySecondFunction\<close> is the README's
  \<open>function mySecondFunction( callback ) { callback(); }\<close>; \<open>callIfGiven\<close> is
  \<open>function( done ) { if( done ) done(); }\<close>.\<close>

definition later :: "arg list \<Rightarrow> action list" where
  "later args = []"


definition callIfGiven :: "arg list \<Rightarrow> action list" where
  "callIfGiven args = (case args of Token t # rest \<Rightarrow> [CallRelease t] | _ \<Rightarrow> [])"


definition submit :: "(arg list \<Rightarrow> action list) \<Rightarrow> string \<Rightarrow> int \<Rightarrow> configIn" where
  "submit f c n = CObject (CFields (Some f) ArgsAbsent (Some c) (Some n) None None None)"

subsection \<open>Example states\<close>




text \<open>A submission that names only its category and a callback, so that its
  arguments, amount and flags are the defaults of the category; and a state in which
  category \<open>x\<close> has maximum 2 and the default arguments array \<open>[7]\<close>.\<close>

definition defaulting :: "string \<Rightarrow> configIn" where
  "defaulting c = CObject (CFields (Some later) ArgsAbsent (Some c) None None None None)"

definition shared_arguments :: state where
  "shared_arguments = snd (call_user 9
     [CallSetMax (Some ''x'') 2,
      CallSetCategoryDefaults (Some ''x'')
        (NewDefaults None None None (Some (ArgsLiteral [Val 7])) None None)] init_state)"

text \<open>What a later state keeps of every request of an earlier one: the category,
  the amount and the \<open>unshift\<close> flag are fixed at submission, \<open>released\<close> is never
  reset, and a request that has left the queue does not return to it.\<close>

definition same_request :: "request \<Rightarrow> request \<Rightarrow> bool" where
  "same_request q q' = (category q' = category q \<and> amount q' = amount q \<and>
     unshift q' = unshift q \<and> (released q \<longrightarrow> released q') \<and> (\<not> inQueue q \<longrightarrow> \<not> inQueue q'))"

definition grows :: "state \<Rightarrow> state \<Rightarrow> bool" where
  "grows s s' = (length (reqs s) \<le> length (reqs s') \<and>
     (\<forall>r < length (reqs s). same_request (reqs s ! r) (reqs s' ! r)))"

text \<open>Category \<open>x\<close> with the initial maximum 1: request 0 runs, request 1 waits.\<close>

definition two_queued :: state where
  "two_queued = snd (call_user 9
     [CallQueue (submit later ''x'' 1), CallQueue (submit later ''x'' 1)] init_state)"

text \<open>Category \<open>x\<close> with the initial maximum 1: request 0 runs; request 1, submitted
  with \<open>debug: true\<close>, \<open>curryRelease: false\<close>, no arguments and the callback
  \<open>callIfGiven\<close>, waits; request 2 waits behind it.\<close>

definition debug_queued :: state where
  "debug_queued = snd (call_user 9
     [CallQueue (submit later ''x'' 1),
      CallQueue (CObject (CFields (Some callIfGiven) ArgsAbsent (Some ''x'') (Some 1)
                   (Some False) (Some True) None)),
      CallQueue (submit later ''x'' 1)] init_state)"

text \<open>The requests started so far, in the order in which \<open>next\<close> started them;
  the queue of a category; and, for a category, its requests submitted with
  \<open>unshift\<close> false: the started ones followed by the queued ones. Request
  identifiers are given out in the order of the calls of \<open>queue\<close>, so the order of
  submission is the order of the identifiers.\<close>

definition started_of :: "event \<Rightarrow> rid list" where
  "started_of e = (case e of Invoke r args \<Rightarrow> [r] | Drained c \<Rightarrow> [])"

definition starts :: "state \<Rightarrow> rid list" where
  "starts s = concat (map started_of (trace s))"

definition queue_of :: "state \<Rightarrow> string \<Rightarrow> rid list" where
  "queue_of s c = (case queues s c of Some q \<Rightarrow> q | None \<Rightarrow> [])"

definition fifo_member :: "state \<Rightarrow> string \<Rightarrow> rid \<Rightarrow> bool" where
  "fifo_member s c r = (r < length (reqs s) \<and> category (reqs s ! r) = c \<and> \<not> unshift (reqs s ! r))"

definition fifo_line :: "state \<Rightarrow> string \<Rightarrow> rid list" where
  "fifo_line s c = filter (fifo_member s c) (starts s @ queue_of s c)"

definition started_ok :: "state \<Rightarrow> bool" where
  "started_ok s = (\<forall>r\<in>set (starts s). r < length (reqs s))"

definition fifo_ok :: "state \<Rightarrow> bool" where
  "fifo_ok s = (\<forall>c. sorted_wrt (<) (fifo_line s c))"

definition fifo_inv :: "state \<Rightarrow> bool" where
  "fifo_inv s = (consistent s \<and> started_ok s \<and> fifo_ok s)"


text \<open>Requests 0 and 1 of category \<open>x\<close> have both been started, request 0 has been
  released.\<close>

definition two_started :: state where
  "two_started = snd (call_user 9
     [CallQueue (submit later ''x'' 1), CallQueue (submit later ''x'' 1),
      CallRelease 0] init_state)"




text \<open>A category is settled when nothing more can be started from its queue: the queue
  is empty, or its head does not fit under the maximum on top of what is consumed.\<close>

definition settled :: "state \<Rightarrow> string \<Rightarrow> bool" where
  "settled s c = (case queues s c of
       None \<Rightarrow> True
     | Some [] \<Rightarrow> True
     | Some (h # rest) \<Rightarrow>
         (case lookupReq s h of
            None \<Rightarrow> False
          | Some item \<Rightarrow> num_at (consumed s) c + amount item > num_at (max' s) c))"


section \<open>The handler with the arithmetic of JavaScript numbers\<close>

text \<open>
  A JavaScript number is an IEEE 754 double. Line 116 adds two of them, line 129
  adds with \<open>+=\<close>, line 340 subtracts with \<open>-=\<close>, line 246 subtracts; each result is
  the exact result rounded to the nearest double, a tie going to the double with the
  even significand. The functions above compute these sums exactly, which is what the
  source does as long as every number involved is an integer of magnitude at most
  \<open>2 ^ 53\<close>; the properties of the release function, of the order of the starts, of
  the arguments arrays and of the checks of \<open>queue\<close> and \<open>setMax\<close> are stated for
  them. The functions of this section, named with the suffix \<open>_d\<close>, round as the
  source does; the properties that speak of the consumed total, of what fits and of
  the drain callback are stated for them. Everything that does no arithmetic
  (\<open>createCategory\<close>, the body of \<open>queue\<close>, the setters) is shared.

  Numbers stay integers: \<open>double x\<close> is the double nearest to the integer \<open>x\<close>,
  and every integer of magnitude at most \<open>2 ^ 53\<close> is a double. Fractions, \<open>NaN\<close>,
  the infinities and the overflow of a sum beyond the largest double are outside the
  model.
\<close>

subsection \<open>Rounding to the nearest double\<close>

text \<open>\<open>ulp n\<close> is the distance between neighbouring doubles at magnitude \<open>n\<close>:
  1 below \<open>2 ^ 53\<close>, and twice as much each time the magnitude doubles.\<close>

function ulp :: "nat \<Rightarrow> nat" where
  "ulp n = (if n < 2 ^ 53 then 1 else 2 * ulp (n div 2))"
  by pat_completeness auto

termination
  by (relation "measure (\<lambda>n. n)") auto

declare ulp.simps [simp del]

definition double :: "int \<Rightarrow> int" where
  "double x =
    (let u = int (ulp (nat \<bar>x\<bar>)); q = x div u; r = x mod u
     in if 2 * r < u then q * u
        else if u < 2 * r then (q + 1) * u
        else if even q then q * u else (q + 1) * u)"

subsection \<open>Category names that a plain object inherits\<close>

text \<open>Line 73 tests \<open>! defaults[ category ]\<close> on a plain object, so it does not
  initialise a category named like a property of \<open>Object.prototype\<close>.
  \<open>createCategory\<close> above initialises every name; a state is \<open>plain\<close> when no
  such name has been used, and the properties that speak of every category are
  stated for plain states.\<close>

definition inherited :: "string \<Rightarrow> bool" where
  "inherited c = (c \<in> set [''constructor'', ''hasOwnProperty'', ''isPrototypeOf'',
     ''propertyIsEnumerable'', ''toLocaleString'', ''toString'', ''valueOf'',
     ''__defineGetter__'', ''__defineSetter__'', ''__lookupGetter__'', ''__lookupSetter__'',
     ''__proto__''])"

definition plain :: "state \<Rightarrow> bool" where
  "plain s = (\<forall>c. defaults s c \<noteq> None \<longrightarrow> \<not> inherited c)"

subsection \<open>The body of next (lines 124-148) and of release (lines 320-352)\<close>

definition admit_d :: "string \<Rightarrow> rid \<Rightarrow> rid list \<Rightarrow> request \<Rightarrow> state \<Rightarrow> state" where
  "admit_d c r rest nextItem s =
    (let a = arguments nextItem;
         item1 = nextItem\<lparr> inQueue := False \<rparr>;
         item2 = (if debug nextItem
                  then duplicateDebugData (item1\<lparr> started := True, running := True,
                         globalRunIndex := Some (globalRunCount s),
                         categoryRunIndex := Some (num_at (categoryRunCount s) c) \<rparr>)
                  else item1)
     in s\<lparr> queues := (queues s)(c \<mapsto> rest),
           consumed := (consumed s)(c \<mapsto> double (num_at (consumed s) c + amount nextItem)),
           arrays := (if curryRelease nextItem
                      then (arrays s)[a := Token r # arr s a] else arrays s),
           reqs := (reqs s)[r := item2],
           globalRunCount := globalRunCount s + 1,
           categoryRunCount := (categoryRunCount s)(c \<mapsto> num_at (categoryRunCount s) c + 1) \<rparr>)"

definition releaseUpdate_d :: "rid \<Rightarrow> request \<Rightarrow> state \<Rightarrow> state" where
  "releaseUpdate_d r cfg s =
    (let c = category cfg;
         cfg1 = (if debug cfg then cfg\<lparr> running := False, completed := True \<rparr> else cfg);
         cfg2 = cfg1\<lparr> released := True \<rparr>;
         cfg3 = (if debug cfg then duplicateDebugData cfg2 else cfg2);
         s1 = (if inQueue cfg
               then s\<lparr> queues := (queues s)(c := map_option (remove1 r) (queues s c)) \<rparr>
               else s\<lparr> consumed :=
                        (consumed s)(c \<mapsto> double (num_at (consumed s) c - amount cfg)) \<rparr>)
     in s1\<lparr> reqs := (reqs s1)[r := cfg3] \<rparr>)"

definition getFree_d :: "string option \<Rightarrow> state \<Rightarrow> int \<times> state" where
  "getFree_d cat s =
    (let (c, s1) = createCategory cat s
     in (double (num_at (max' s1) c - num_at (consumed s1) c), s1))"

subsection \<open>next (lines 99-156), release (313-356), queue (282-387), setMax (176-202)\<close>

function (sequential)
    next_d :: "nat \<Rightarrow> string \<Rightarrow> state \<Rightarrow> unit res \<times> state"
and call_user_d :: "nat \<Rightarrow> action list \<Rightarrow> state \<Rightarrow> unit res \<times> state"
and do_action_d :: "nat \<Rightarrow> action \<Rightarrow> state \<Rightarrow> unit res \<times> state"
and release_d :: "nat \<Rightarrow> rid \<Rightarrow> state \<Rightarrow> unit res \<times> state"
and queue_d :: "nat \<Rightarrow> configIn \<Rightarrow> state \<Rightarrow> rid res \<times> state"
and setMax_d :: "nat \<Rightarrow> string option \<Rightarrow> int \<Rightarrow> state \<Rightarrow> unit res \<times> state"
where
  "next_d 0 c s = (OutOfFuel, s)"
| "next_d (Suc n) c s =
    (case queues s c of
       None \<Rightarrow> (Threw (TypeError ''Cannot read properties of undefined (reading length)''), s)
     | Some [] \<Rightarrow>
         (if num_at (consumed s) c = 0
          then (case d_onDrain (defaults_at s c) of
                  Some f \<Rightarrow> call_user_d n (f c) (log_event (Drained c) s)
                | None \<Rightarrow> (Ret (), s))
          else (Ret (), s))
     | Some (r # rest) \<Rightarrow>
         (case lookupReq s r of
            None \<Rightarrow> (Threw (TypeError ''Cannot read properties of undefined (reading amount)''), s)
          | Some nextItem \<Rightarrow>
              if double (num_at (consumed s) c + amount nextItem) > num_at (max' s) c
              then (if amount nextItem > num_at (max' s) c
                    then (Threw (AdmissionError c (amount nextItem) (num_at (max' s) c)), s)
                    else (Ret (), s))
              else (let s1 = admit_d c r rest nextItem s;
                        args = arr s1 (arguments nextItem);
                        s2 = log_event (Invoke r args) s1
                    in case callback nextItem of
                         None \<Rightarrow> (Threw (TypeError ''Cannot read properties of undefined (reading apply)''), s2)
                       | Some f \<Rightarrow>
                           continue_with (call_user_d n (f args) s2) (\<lambda>u s3. next_d n c s3))))"
| "call_user_d n [] s = (Ret (), s)"
| "call_user_d 0 (a # as) s = (OutOfFuel, s)"
| "call_user_d (Suc n) (a # as) s =
    continue_with (do_action_d n a s) (\<lambda>u s1. call_user_d n as s1)"
| "do_action_d 0 a s = (OutOfFuel, s)"
| "do_action_d (Suc n) a s =
    (case a of
       CallRelease r \<Rightarrow> release_d n r s
     | CallQueue cin \<Rightarrow> continue_with (queue_d n cin s) (\<lambda>t s1. (Ret (), s1))
     | CallSetMax cat amt \<Rightarrow> setMax_d n cat amt s
     | CallGetMax cat \<Rightarrow> (Ret (), snd (getMax cat s))
     | CallOnDrain cat cb \<Rightarrow> (Ret (), onDrain cat cb s)
     | CallGetRunning cat \<Rightarrow> (Ret (), snd (getRunning cat s))
     | CallGetFree cat \<Rightarrow> (Ret (), snd (getFree_d cat s))
     | CallSetDefaultCategory cat \<Rightarrow> (Ret (), setDefaultCategory cat s)
     | CallSetCategoryDefaults cat nd \<Rightarrow> (Ret (), setCategoryDefaults cat nd s)
     | Raise \<Rightarrow> (Threw UserError, s))"
| "release_d 0 r s = (OutOfFuel, s)"
| "release_d (Suc n) r s =
    (case lookupReq s r of
       None \<Rightarrow> (Threw (TypeError ''release is not a function''), s)
     | Some cfg \<Rightarrow>
         if released cfg then (Ret (), s)
         else next_d n (category cfg) (releaseUpdate_d r cfg s))"
| "queue_d 0 cin s = (OutOfFuel, s)"
| "queue_d (Suc n) cin s =
    (if instanceof_Object (js_not (value_of cin)) then (Threw ExpectedConfiguration, s)
     else case read_callback cin of
            Inl e \<Rightarrow> (Threw e, s)
          | Inr cb \<Rightarrow>
              if instanceof_Function (js_not cb) then (Threw RequiresCallback, s)
              else if \<not> has_hasOwnProperty cin
              then (Threw (TypeError ''configIn.hasOwnProperty is not a function''),
                    snd (createCategory (in_category (fields_of cin)) s))
              else (case enqueue (fields_of cin) s of
                      (c, r, s1) \<Rightarrow> continue_with (next_d n c s1) (\<lambda>u s2. (Ret r, s2))))"
| "setMax_d 0 cat amt s = (OutOfFuel, s)"
| "setMax_d (Suc n) cat amt s =
    (if 0 \<ge> amt then (Threw (ConfigurationError amt), s)
     else (case createCategory cat s of
             (c, s1) \<Rightarrow> next_d n c (s1\<lparr> max' := (max' s1)(c \<mapsto> amt) \<rparr>)))"
  by pat_completeness auto

termination
  by (relation "measure (\<lambda>x. case x of
         Inl (Inl (n, _)) \<Rightarrow> n | Inl (Inr (Inl (n, _))) \<Rightarrow> n | Inl (Inr (Inr (n, _))) \<Rightarrow> n
       | Inr (Inl (n, _)) \<Rightarrow> n | Inr (Inr (Inl (n, _))) \<Rightarrow> n | Inr (Inr (Inr (n, _))) \<Rightarrow> n)")
     auto


subsection \<open>Reachable states and basic steps\<close>

inductive reachable_d :: "state \<Rightarrow> bool" where
  reachd_init: "reachable_d init_state"
| reachd_call: "reachable_d s \<Longrightarrow> reachable_d (snd (call_user_d n acts s))"
| reachd_write_arguments: "reachable_d s \<Longrightarrow> reachable_d (write_debug_arguments r xs s)"
| reachd_write_debug: "reachable_d s \<Longrightarrow> reachable_d (write_debug r g s)"

inductive basic_d :: "state \<Rightarrow> state \<Rightarrow> bool" where
  bd_create: "basic_d s (snd (createCategory cat s))"
| bd_drain: "queues s c = Some [] \<Longrightarrow> num_at (consumed s) c = 0 \<Longrightarrow>
     basic_d s (log_event (Drained c) s)"
| bd_admit: "queues s c = Some (r # rest) \<Longrightarrow> lookupReq s r = Some item \<Longrightarrow>
     double (num_at (consumed s) c + amount item) \<le> num_at (max' s) c \<Longrightarrow>
     s1 = admit_d c r rest item s \<Longrightarrow>
     basic_d s (log_event (Invoke r (arr s1 (arguments item))) s1)"
| bd_release: "lookupReq s r = Some cfg \<Longrightarrow> \<not> released cfg \<Longrightarrow>
     basic_d s (releaseUpdate_d r cfg s)"
| bd_enqueue: "basic_d s (snd (snd (enqueue f s)))"
| bd_setMax: "0 < amt \<Longrightarrow> createCategory cat s = (c, s1) \<Longrightarrow>
     basic_d s (s1\<lparr> max' := (max' s1)(c \<mapsto> amt) \<rparr>)"
| bd_onDrain: "basic_d s (onDrain cat cb s)"
| bd_setDefaultCategory: "basic_d s (setDefaultCategory cat s)"
| bd_setCategoryDefaults: "basic_d s (setCategoryDefaults cat nd s)"
| bd_write_arguments: "basic_d s (write_debug_arguments r xs s)"
| bd_write_debug: "basic_d s (write_debug r g s)"

text \<open>The state with every consumed total replaced by the sum over the running
  requests; and, for a category, the sum of the magnitudes of the amounts of all
  its requests, which bounds every total that the category can reach.\<close>

definition exact_totals :: "state \<Rightarrow> state" where
  "exact_totals s = s\<lparr> consumed := (\<lambda>c. Some (running_sum s c)) \<rparr>"

definition category_total :: "state \<Rightarrow> string \<Rightarrow> int" where
  "category_total s c = (\<Sum>q\<leftarrow>reqs s. if category q = c then \<bar>amount q\<bar> else 0)"

section \<open>Properties\<close>

subsection \<open>Every call is a sequence of basic steps\<close>

lemma continue_with_simps [simp]:
  "continue_with (Ret u, s) k = k u s"
  "continue_with (Threw e, s) k = (Threw e, s)"
  "continue_with (OutOfFuel, s) k = (OutOfFuel, s)"
  by (simp_all add: continue_with_def)

lemma steps_continue:
  assumes "basic\<^sup>*\<^sup>* s (snd rs)"
    and "\<And>u s1. basic\<^sup>*\<^sup>* s1 (snd (k u s1))"
  shows "basic\<^sup>*\<^sup>* s (snd (continue_with rs k))"
proof (cases rs)
  case (Pair r s1)
  with assms show ?thesis
    by (cases r) (auto intro: rtranclp_trans)
qed

lemma steps_all:
  "(\<forall>c s. basic\<^sup>*\<^sup>* s (snd (next' n c s))) \<and>
   (\<forall>as s. basic\<^sup>*\<^sup>* s (snd (call_user n as s))) \<and>
   (\<forall>a s. basic\<^sup>*\<^sup>* s (snd (do_action n a s))) \<and>
   (\<forall>r s. basic\<^sup>*\<^sup>* s (snd (release n r s))) \<and>
   (\<forall>cin s. basic\<^sup>*\<^sup>* s (snd (queue n cin s))) \<and>
   (\<forall>cat amt s. basic\<^sup>*\<^sup>* s (snd (setMax n cat amt s)))"
proof (induction n)
  case 0
  show ?case
  proof (intro conjI allI)
    fix as s show "basic\<^sup>*\<^sup>* s (snd (call_user 0 as s))" by (cases as) simp_all
  qed simp_all
next
  case (Suc n)
  have nx: "basic\<^sup>*\<^sup>* s (snd (next' (Suc n) c s))" for c s
  proof (cases "queues s c")
    case None
    then show ?thesis by simp
  next
    case (Some q)
    show ?thesis
    proof (cases q)
      case Nil
      show ?thesis
      proof (cases "num_at (consumed s) c = 0")
        case True
        show ?thesis
        proof (cases "d_onDrain (defaults_at s c)")
          case None
          with Some Nil True show ?thesis by simp
        next
          case (Some f)
          have "basic s (log_event (Drained c) s)"
            using \<open>queues s c = Some q\<close> Nil True by (auto intro: b_drain)
          moreover have "basic\<^sup>*\<^sup>* (log_event (Drained c) s)
              (snd (call_user n (f c) (log_event (Drained c) s)))"
            using Suc.IH by blast
          ultimately show ?thesis
            using \<open>queues s c = Some q\<close> Nil True Some by simp
        qed
      next
        case False
        with Some Nil show ?thesis by simp
      qed
    next
      case (Cons r rest)
      show ?thesis
      proof (cases "lookupReq s r")
        case None
        with Some Cons show ?thesis by simp
      next
        case (Some item)
        show ?thesis
        proof (cases "num_at (consumed s) c + amount item > num_at (max' s) c")
          case True
          with \<open>queues s c = Some q\<close> Cons Some show ?thesis by simp
        next
          case False
          define s1 where "s1 = admit c r rest item s"
          define s2 where "s2 = log_event (Invoke r (arr s1 (arguments item))) s1"
          have b: "basic s s2"
            unfolding s2_def
            by (rule b_admit [OF _ Some _ s1_def])
               (use \<open>queues s c = Some q\<close> Cons False in auto)
          show ?thesis
          proof (cases "callback item")
            case None
            with \<open>queues s c = Some q\<close> Cons Some False b show ?thesis
              by (simp add: s1_def s2_def Let_def)
          next
            case (Some f)
            have "basic\<^sup>*\<^sup>* s2 (snd (continue_with (call_user n (f (arr s1 (arguments item))) s2)
                     (\<lambda>u s3. next' n c s3)))"
              by (rule steps_continue) (use Suc.IH in blast)+
            with b have "basic\<^sup>*\<^sup>* s (snd (continue_with (call_user n (f (arr s1 (arguments item))) s2)
                     (\<lambda>u s3. next' n c s3)))"
              by (rule converse_rtranclp_into_rtranclp)
            with \<open>queues s c = Some q\<close> Cons \<open>lookupReq s r = Some item\<close> False Some show ?thesis
              by (simp add: s1_def s2_def Let_def)
          qed
        qed
      qed
    qed
  qed
  have rl: "basic\<^sup>*\<^sup>* s (snd (release (Suc n) r s))" for r s
  proof (cases "lookupReq s r")
    case None
    then show ?thesis by simp
  next
    case (Some cfg)
    show ?thesis
    proof (cases "released cfg")
      case True
      with Some show ?thesis by simp
    next
      case False
      have "basic s (releaseUpdate r cfg s)"
        using Some False by (rule b_release)
      moreover have "basic\<^sup>*\<^sup>* (releaseUpdate r cfg s)
          (snd (next' n (category cfg) (releaseUpdate r cfg s)))"
        using Suc.IH by blast
      ultimately show ?thesis using Some False by simp
    qed
  qed
  have qu: "basic\<^sup>*\<^sup>* s (snd (queue (Suc n) cin s))" for cin s
  proof -
    obtain c r s1 where e: "enqueue (fields_of cin) s = (c, r, s1)"
      by (cases "enqueue (fields_of cin) s") auto
    have "basic s s1"
      using b_enqueue [of s "fields_of cin"] e by simp
    moreover have "basic\<^sup>*\<^sup>* s1 (snd (continue_with (next' n c s1) (\<lambda>u s2. (Ret r, s2))))"
      by (rule steps_continue) (use Suc.IH in auto)
    ultimately have "basic\<^sup>*\<^sup>* s (snd (continue_with (next' n c s1) (\<lambda>u s2. (Ret r, s2))))"
      by (rule converse_rtranclp_into_rtranclp)
    moreover have "basic\<^sup>*\<^sup>* s (snd (createCategory (in_category (fields_of cin)) s))"
      using b_create [of s "in_category (fields_of cin)"] by blast
    ultimately show ?thesis
      using e by (auto split: sum.splits)
  qed
  have sm: "basic\<^sup>*\<^sup>* s (snd (setMax (Suc n) cat amt s))" for cat amt s
  proof (cases "0 \<ge> amt")
    case True
    then show ?thesis by simp
  next
    case False
    obtain c s1 where cc: "createCategory cat s = (c, s1)"
      by (cases "createCategory cat s") auto
    have "basic s (s1\<lparr> max' := (max' s1)(c \<mapsto> amt) \<rparr>)"
      using False cc by (auto intro: b_setMax)
    moreover have "basic\<^sup>*\<^sup>* (s1\<lparr> max' := (max' s1)(c \<mapsto> amt) \<rparr>)
        (snd (next' n c (s1\<lparr> max' := (max' s1)(c \<mapsto> amt) \<rparr>)))"
      using Suc.IH by blast
    ultimately show ?thesis using False cc by simp
  qed
  have da: "basic\<^sup>*\<^sup>* s (snd (do_action (Suc n) a s))" for a s
  proof (cases a)
    case (CallRelease r)
    then show ?thesis using Suc.IH by simp
  next
    case (CallQueue cin)
    have "basic\<^sup>*\<^sup>* s (snd (continue_with (queue n cin s) (\<lambda>t s1. (Ret (), s1))))"
      by (rule steps_continue) (use Suc.IH in auto)
    with CallQueue show ?thesis by simp
  next
    case (CallSetMax cat amt)
    then show ?thesis using Suc.IH by simp
  next
    case (CallGetMax cat)
    then show ?thesis using b_create [of s cat]
      by (auto simp: getMax_def split: prod.splits)
  next
    case (CallOnDrain cat cb)
    then show ?thesis using b_onDrain [of s cat cb] by auto
  next
    case (CallGetRunning cat)
    then show ?thesis using b_create [of s cat]
      by (auto simp: getRunning_def split: prod.splits)
  next
    case (CallGetFree cat)
    then show ?thesis using b_create [of s cat]
      by (auto simp: getFree_def split: prod.splits)
  next
    case (CallSetDefaultCategory cat)
    then show ?thesis using b_setDefaultCategory [of s cat] by auto
  next
    case (CallSetCategoryDefaults cat nd)
    then show ?thesis using b_setCategoryDefaults [of s cat nd] by auto
  next
    case Raise
    then show ?thesis by simp
  qed
  have cu: "basic\<^sup>*\<^sup>* s (snd (call_user (Suc n) as s))" for as s
  proof (cases as)
    case Nil
    then show ?thesis by simp
  next
    case (Cons a as')
    have "basic\<^sup>*\<^sup>* s (snd (continue_with (do_action n a s) (\<lambda>u s1. call_user n as' s1)))"
      by (rule steps_continue) (use Suc.IH in auto)
    with Cons show ?thesis by simp
  qed
  from nx rl qu sm da cu show ?case by blast
qed

subsection \<open>Which errors can be raised\<close>

lemma thrown_continue:
  assumes "fst (continue_with rs k) = Threw e"
  shows "fst rs = Threw e \<or> (\<exists>u s1. fst (k u s1) = Threw e)"
proof (cases rs)
  case (Pair r s1)
  with assms show ?thesis by (cases r) auto
qed

lemma guards_false [simp]:
  "\<not> instanceof_Object (js_not v)" "\<not> instanceof_Function (js_not v)"
  by (simp_all add: instanceof_Object_def instanceof_Function_def js_not_def)

lemma has_hasOwnProperty_simps [simp]:
  "has_hasOwnProperty CUndefined" "has_hasOwnProperty CNull" "has_hasOwnProperty (CPrimitive b)"
  "has_hasOwnProperty (CObject f)" "\<not> has_hasOwnProperty (CBare f)" "has_hasOwnProperty CTrap"
  by (simp_all add: has_hasOwnProperty_def)

lemma expected_TypeError: "expected_error (TypeError x)"
  by (simp add: expected_error_def)

lemma read_callback_error:
  "read_callback cin = Inl e \<Longrightarrow> expected_error e"
  by (auto simp: read_callback_def expected_error_def split: configIn.splits)

lemma thrown_all:
  "(\<forall>c s e. fst (next' n c s) = Threw e \<longrightarrow> expected_error e) \<and>
   (\<forall>as s e. fst (call_user n as s) = Threw e \<longrightarrow> expected_error e) \<and>
   (\<forall>a s e. fst (do_action n a s) = Threw e \<longrightarrow> expected_error e) \<and>
   (\<forall>r s e. fst (release n r s) = Threw e \<longrightarrow> expected_error e) \<and>
   (\<forall>cin s e. fst (queue n cin s) = Threw e \<longrightarrow> expected_error e) \<and>
   (\<forall>cat amt s e. fst (setMax n cat amt s) = Threw e \<longrightarrow> expected_error e)"
proof (induction n)
  case 0
  show ?case
  proof (intro conjI allI impI)
    fix as s e assume "fst (call_user 0 as s) = Threw e"
    then show "expected_error e" by (cases as) simp_all
  qed simp_all
next
  case (Suc n)
  have nx: "expected_error e" if "fst (next' (Suc n) c s) = Threw e" for c s e
    using that Suc.IH
    by (auto simp: Let_def expected_error_def split: option.splits list.splits if_splits
             dest!: thrown_continue)
  have rl: "expected_error e" if "fst (release (Suc n) r s) = Threw e" for r s e
    using that Suc.IH
    by (auto simp: expected_error_def split: option.splits if_splits)
  have qu: "expected_error e" if "fst (queue (Suc n) cin s) = Threw e" for cin s e
  proof (cases "has_hasOwnProperty cin")
    case True
    with that Suc.IH show ?thesis
      by (auto simp: read_callback_error split: sum.splits prod.splits dest!: thrown_continue)
  next
    case False
    with that show ?thesis
      by (auto simp: read_callback_error expected_TypeError split: sum.splits)
  qed
  have sm: "expected_error e" if "fst (setMax (Suc n) cat amt s) = Threw e" for cat amt s e
    using that Suc.IH
    by (auto simp: expected_error_def split: prod.splits if_splits)
  have da: "expected_error e" if "fst (do_action (Suc n) a s) = Threw e" for a s e
    using that Suc.IH
    by (cases a) (auto simp: expected_error_def dest!: thrown_continue)
  have cu: "expected_error e" if "fst (call_user (Suc n) as s) = Threw e" for as s e
    using that Suc.IH
    by (cases as) (auto dest!: thrown_continue)
  from nx rl qu sm da cu show ?case by blast
qed

lemma next_thrown: "fst (next' n c s) = Threw e \<Longrightarrow> expected_error e"
  using thrown_all by blast


subsection \<open>setMax and its amount check\<close>

text \<open>
  C7. \<open>setMax\<close> raises the error that names its amount,
  \<open>'concurrency-handler.setMax(): Invalid amount: ' + amount\<close>, if and only if that
  amount is at most 0, whatever the callbacks of the sweep do; and when it does, the
  whole state, so the capacity, the consumed total and the queue of the category,
  is as it was before the call.
\<close>

theorem setMax_invalid_amount_iff:
  "(fst (setMax (Suc n) cat amt s) = Threw (ConfigurationError amt)) = (amt \<le> 0) \<and>
   (amt \<le> 0 \<longrightarrow> snd (setMax (Suc n) cat amt s) = s)"
proof -
  have "amt \<le> 0" if "fst (setMax (Suc n) cat amt s) = Threw (ConfigurationError amt)"
  proof (rule ccontr)
    assume pos: "\<not> amt \<le> 0"
    obtain c s1 where cc: "createCategory cat s = (c, s1)"
      by (cases "createCategory cat s") auto
    from that pos cc
    have "fst (next' n c (s1\<lparr> max' := (max' s1)(c \<mapsto> amt) \<rparr>)) = Threw (ConfigurationError amt)"
      by simp
    then have "expected_error (ConfigurationError amt)" by (rule next_thrown)
    with pos show False by (simp add: expected_error_def)
  qed
  then show ?thesis by auto
qed

theorem setMax_invalid_amount_iff_witness:
  "fst (setMax (Suc 0) (Some ''fd'') (- 2) init_state) = Threw (ConfigurationError (- 2)) \<and>
   snd (setMax (Suc 0) (Some ''fd'') (- 2) init_state) = init_state \<and>
   fst (setMax (Suc (Suc 0)) (Some ''fd'') 4 init_state) \<noteq> Threw (ConfigurationError 4)"
  using setMax_invalid_amount_iff [of 0 "Some ''fd''" "- 2" init_state]
        setMax_invalid_amount_iff [of "Suc 0" "Some ''fd''" 4 init_state]
  by simp

subsection \<open>The sanity checks of queue\<close>

lemma createCategory_frame [simp]:
  "reqs (snd (createCategory cat s)) = reqs s"
  "arrays (snd (createCategory cat s)) = arrays s"
  "trace (snd (createCategory cat s)) = trace s"
  "globalRunCount (snd (createCategory cat s)) = globalRunCount s"
  by (simp_all add: createCategory_def Let_def)

lemma resolveArguments_frame [simp]:
  "reqs (snd (resolveArguments ai d s)) = reqs s"
  "queues (snd (resolveArguments ai d s)) = queues s"
  "defaults (snd (resolveArguments ai d s)) = defaults s"
  "consumed (snd (resolveArguments ai d s)) = consumed s"
  "max' (snd (resolveArguments ai d s)) = max' s"
  "trace (snd (resolveArguments ai d s)) = trace s"
  by (simp_all add: resolveArguments_def Let_def split: args_in.splits option.splits)





subsection \<open>The error for an amount above the maximum\<close>





subsection \<open>The drain callback\<close>






subsection \<open>The arguments array of a request\<close>

lemma createCategory_existing:
  assumes "defaults s c \<noteq> None"
  shows "fst (createCategory (Some c) s) = c"
    and "queues (snd (createCategory (Some c) s)) = queues s"
    and "defaults (snd (createCategory (Some c) s)) = defaults s"
    and "consumed (snd (createCategory (Some c) s)) = consumed s"
    and "max' (snd (createCategory (Some c) s)) = max' s"
    and "categoryRunCount (snd (createCategory (Some c) s)) = categoryRunCount s"
  using assms by (auto simp: createCategory_def Let_def)

lemma queue_defaulting:
  assumes d: "defaults s c \<noteq> None"
    and a: "d_arguments (defaults_at s c) = Some a" "a < length (arrays s)"
    and cr: "d_curryRelease (defaults_at s c)" and q: "queues s c = Some []"
    and fits: "num_at (consumed s) c + d_amount (defaults_at s c) \<le> num_at (max' s) c"
    and busy: "num_at (consumed s) c + d_amount (defaults_at s c) \<noteq> 0"
  shows "\<exists>s1. queue (Suc (Suc (Suc n))) (defaulting c) s = (Ret (length (reqs s)), s1) \<and>
           trace s1 = trace s @ [Invoke (length (reqs s)) (Token (length (reqs s)) # arr s a)] \<and>
           arguments (reqs s1 ! length (reqs s)) = a \<and>
           arr s1 a = Token (length (reqs s)) # arr s a \<and>
           length (arrays s1) = length (arrays s) \<and>
           length (reqs s1) = Suc (length (reqs s)) \<and>
           defaults s1 = defaults s \<and> queues s1 c = Some [] \<and> max' s1 = max' s \<and>
           num_at (consumed s1) c = num_at (consumed s) c + d_amount (defaults_at s c)"
  using assms
  by (simp add: defaulting_def read_callback_def fields_of_def enqueue_def split_beta
        createCategory_existing [OF d] defaults_at_def resolveArguments_def Let_def
        lookupReq_def nth_append admit_def duplicateDebugData_def num_at_def later_def
        log_event_def arr_def)

text \<open>
  C10. When a request that curries its release function is admitted, the function is
  put at the front of the array that the request stores, not of a copy. When a
  submission gives no arguments and the category has a default arguments array, the
  stored array is that default array: after two such submissions the default array
  holds both release functions, and the callback of the second request is applied to
  its own release function followed by that of the first.
\<close>

theorem release_function_accumulates_in_default_arguments:
  assumes d: "defaults s c \<noteq> None"
    and a: "d_arguments (defaults_at s c) = Some a" "a < length (arrays s)"
    and cr: "d_curryRelease (defaults_at s c)" and q: "queues s c = Some []"
    and nonneg: "0 \<le> num_at (consumed s) c" and pos: "0 < d_amount (defaults_at s c)"
    and fits: "num_at (consumed s) c + 2 * d_amount (defaults_at s c) \<le> num_at (max' s) c"
    and r: "r = length (reqs s)"
  shows "\<exists>s1 s2. queue (Suc (Suc (Suc n))) (defaulting c) s = (Ret r, s1) \<and>
           queue (Suc (Suc (Suc m))) (defaulting c) s1 = (Ret (Suc r), s2) \<and>
           arguments (reqs s1 ! r) = a \<and>
           arr s1 a = Token r # arr s a \<and>
           d_arguments (defaults_at s2 c) = Some a \<and>
           arr s2 a = Token (Suc r) # Token r # arr s a \<and>
           trace s2 = trace s @ [Invoke r (Token r # arr s a),
                                 Invoke (Suc r) (Token (Suc r) # Token r # arr s a)]"
proof -
  from queue_defaulting [OF d a cr q, of n] nonneg pos fits
  obtain s1 where s1: "queue (Suc (Suc (Suc n))) (defaulting c) s = (Ret (length (reqs s)), s1)"
    "trace s1 = trace s @ [Invoke (length (reqs s)) (Token (length (reqs s)) # arr s a)]"
    "arguments (reqs s1 ! length (reqs s)) = a"
    "arr s1 a = Token (length (reqs s)) # arr s a"
    "length (arrays s1) = length (arrays s)"
    "length (reqs s1) = Suc (length (reqs s))"
    "defaults s1 = defaults s" "queues s1 c = Some []" "max' s1 = max' s"
    "num_at (consumed s1) c = num_at (consumed s) c + d_amount (defaults_at s c)"
    by auto
  have da: "defaults_at s1 c = defaults_at s c"
    using s1(7) by (simp add: defaults_at_def)
  have "\<exists>s2. queue (Suc (Suc (Suc m))) (defaulting c) s1 = (Ret (length (reqs s1)), s2) \<and>
           trace s2 = trace s1 @ [Invoke (length (reqs s1)) (Token (length (reqs s1)) # arr s1 a)] \<and>
           arr s2 a = Token (length (reqs s1)) # arr s1 a \<and> defaults s2 = defaults s1"
    using queue_defaulting [of s1 c a m] d a cr nonneg pos fits s1 da
    by (auto simp del: queue.simps)
  then obtain s2 where s2: "queue (Suc (Suc (Suc m))) (defaulting c) s1 = (Ret (length (reqs s1)), s2)"
    "trace s2 = trace s1 @ [Invoke (length (reqs s1)) (Token (length (reqs s1)) # arr s1 a)]"
    "arr s2 a = Token (length (reqs s1)) # arr s1 a" "defaults s2 = defaults s1"
    by auto
  have "defaults_at s2 c = defaults_at s c"
    using s2(4) s1(7) by (simp add: defaults_at_def)
  with s1 s2 r a show ?thesis by simp
qed

lemma shared_arguments_facts:
  "defaults shared_arguments ''x'' \<noteq> None"
  "d_arguments (defaults_at shared_arguments ''x'') = Some 0"
  "d_curryRelease (defaults_at shared_arguments ''x'')"
  "d_amount (defaults_at shared_arguments ''x'') = 1"
  "queues shared_arguments ''x'' = Some []"
  "num_at (consumed shared_arguments) ''x'' = 0"
  "num_at (max' shared_arguments) ''x'' = 2"
  "reqs shared_arguments = []"
  "trace shared_arguments = []"
  "arrays shared_arguments = [Val 7] # []"
  by (simp_all add: shared_arguments_def eval_nat_numeral createCategory_def
        setCategoryDefaults_def defaults_at_def num_at_def init_state_def
        initial_defaults_def Let_def)

theorem release_function_accumulates_in_default_arguments_witness:
  "defaults shared_arguments ''x'' \<noteq> None \<and>
   d_arguments (defaults_at shared_arguments ''x'') = Some 0 \<and>
   d_curryRelease (defaults_at shared_arguments ''x'') \<and>
   queues shared_arguments ''x'' = Some [] \<and>
   (\<exists>s1 s2. queue (Suc (Suc (Suc 0))) (defaulting ''x'') shared_arguments = (Ret 0, s1) \<and>
      queue (Suc (Suc (Suc 0))) (defaulting ''x'') s1 = (Ret (Suc 0), s2) \<and>
      arguments (reqs s1 ! 0) = 0 \<and>
      arr s1 0 = [Token 0, Val 7] \<and>
      d_arguments (defaults_at s2 ''x'') = Some 0 \<and>
      arr s2 0 = [Token (Suc 0), Token 0, Val 7] \<and>
      trace s2 = [Invoke 0 [Token 0, Val 7], Invoke (Suc 0) [Token (Suc 0), Token 0, Val 7]])"
  using release_function_accumulates_in_default_arguments
          [of shared_arguments "''x''" 0 0 0 0] shared_arguments_facts
  by (simp add: arr_def)

subsection \<open>Requests keep their identity; release is idempotent\<close>

lemma grows_refl [simp]: "grows s s"
  by (simp add: grows_def same_request_def)

lemma grows_trans: "grows s s' \<Longrightarrow> grows s' s'' \<Longrightarrow> grows s s''"
  unfolding grows_def same_request_def
  by (metis (no_types, lifting) le_trans less_le_trans)

lemma simple_frame [simp]:
  "reqs (onDrain cat cb s) = reqs s"
  "reqs (setDefaultCategory cat s) = reqs s"
  "reqs (setCategoryDefaults cat nd s) = reqs s"
  "reqs (write_debug_arguments r xs s) = reqs s"
  "reqs (log_event e s) = reqs s"
  by (simp_all add: onDrain_def setDefaultCategory_def setCategoryDefaults_def split_beta
        write_debug_arguments_def log_event_def Let_def
        split: option.splits args_in.splits)

lemma basic_grows: "basic s s' \<Longrightarrow> grows s s'"
proof (induction rule: basic.induct)
  case (b_admit s c r rest item s1)
  then show ?case
    by (auto simp: grows_def same_request_def admit_def Let_def lookupReq_def
          nth_list_update duplicateDebugData_def split: if_splits)
next
  case (b_release s r cfg)
  then show ?case
    by (auto simp: grows_def same_request_def releaseUpdate_def Let_def lookupReq_def
          nth_list_update duplicateDebugData_def split: if_splits)
next
  case (b_enqueue s f)
  then show ?case
    by (auto simp: grows_def same_request_def enqueue_def Let_def split_beta nth_append)
next
  case (b_setMax amt cat s c s1)
  from b_setMax(2) have "reqs s1 = reqs s"
    using createCategory_frame(1) [of cat s] by simp
  then show ?case by (simp add: grows_def same_request_def)
next
  case (b_write_debug s r g)
  then show ?case
    by (auto simp: grows_def same_request_def write_debug_def lookupReq_def
          nth_list_update split: option.splits if_splits)
qed (simp_all add: grows_def same_request_def)

lemma steps_grow: "basic\<^sup>*\<^sup>* s s' \<Longrightarrow> grows s s'"
  by (induction rule: rtranclp_induct) (auto intro: grows_trans basic_grows)

lemma next_grows: "grows s (snd (next' n c s))"
  using steps_all steps_grow by blast

lemma released_after_update:
  "lookupReq s r = Some cfg \<Longrightarrow>
   r < length (reqs (releaseUpdate r cfg s)) \<and> released (reqs (releaseUpdate r cfg s) ! r)"
  by (auto simp: releaseUpdate_def Let_def lookupReq_def duplicateDebugData_def split: if_splits)

lemma released_after_release:
  assumes "r < length (reqs s)"
  shows "r < length (reqs (snd (release (Suc n) r s))) \<and>
         released (reqs (snd (release (Suc n) r s)) ! r)"
proof (cases "released (reqs s ! r)")
  case True
  with assms show ?thesis by (simp add: lookupReq_def)
next
  case False
  let ?s1 = "releaseUpdate r (reqs s ! r) s"
  have l: "lookupReq s r = Some (reqs s ! r)" using assms by (simp add: lookupReq_def)
  have "grows ?s1 (snd (next' n (category (reqs s ! r)) ?s1))" by (rule next_grows)
  with released_after_update [OF l]
  have "r < length (reqs (snd (next' n (category (reqs s ! r)) ?s1))) \<and>
        released (reqs (snd (next' n (category (reqs s ! r)) ?s1)) ! r)"
    by (auto simp: grows_def same_request_def)
  with l False show ?thesis by simp
qed

lemma release_of_released:
  "r < length (reqs s) \<Longrightarrow> released (reqs s ! r) \<Longrightarrow> release (Suc m) r s = (Ret (), s)"
  by (simp add: lookupReq_def)

lemma funpow_idem:
  assumes "f (f x) = f x"
  shows "(f ^^ Suc k) x = f x"
proof (induction k)
  case 0
  show ?case by simp
next
  case (Suc k)
  have "(f ^^ Suc (Suc k)) x = f ((f ^^ Suc k) x)" by simp
  with Suc.IH assms show ?case by simp
qed

text \<open>
  C3. For every request, after a first call of its release function (whatever that
  call did, and whether it returned or raised), a further call returns normally and
  leaves the whole state as it is: consumed totals, queues, requests and the record
  of callbacks and drain callbacks invoked. So any number \<open>k + 1\<close> of calls
  leaves the state that one call leaves.
\<close>

theorem release_idempotent:
  "r < length (reqs s) \<longrightarrow>
     release (Suc m) r (snd (release (Suc n) r s)) = (Ret (), snd (release (Suc n) r s)) \<and>
     ((\<lambda>t. snd (release (Suc n) r t)) ^^ Suc k) s = snd (release (Suc n) r s)"
proof
  assume r: "r < length (reqs s)"
  have again: "release (Suc m) r (snd (release (Suc n) r s)) = (Ret (), snd (release (Suc n) r s))"
    for m
    using released_after_release [OF r, of n] release_of_released by blast
  have "snd (release (Suc n) r (snd (release (Suc n) r s))) = snd (release (Suc n) r s)"
    by (simp only: again snd_conv)
  then have "((\<lambda>t. snd (release (Suc n) r t)) ^^ Suc k) s = snd (release (Suc n) r s)"
    by (rule funpow_idem)
  with again show "release (Suc m) r (snd (release (Suc n) r s)) = (Ret (), snd (release (Suc n) r s)) \<and>
     ((\<lambda>t. snd (release (Suc n) r t)) ^^ Suc k) s = snd (release (Suc n) r s)"
    by blast
qed

lemma two_queued_facts:
  "length (reqs two_queued) = 2"
  "num_at (consumed two_queued) ''x'' = 1"
  "queues two_queued ''x'' = Some [1]"
  "trace two_queued = [Invoke 0 [Token 0]]"
  "trace (snd (release (Suc (Suc (Suc 0))) 0 two_queued)) = [Invoke 0 [Token 0], Invoke 1 [Token 1]]"
  "num_at (consumed (snd (release (Suc (Suc (Suc 0))) 0 two_queued))) ''x'' = 1"
  "fst (release (Suc (Suc (Suc 0))) 0 two_queued) = Ret ()"
  unfolding two_queued_def by code_simp+

theorem release_idempotent_witness:
  "0 < length (reqs two_queued) \<and>
   trace (snd (release (Suc (Suc (Suc 0))) 0 two_queued)) = [Invoke 0 [Token 0], Invoke 1 [Token 1]] \<and>
   release (Suc 0) 0 (snd (release (Suc (Suc (Suc 0))) 0 two_queued))
     = (Ret (), snd (release (Suc (Suc (Suc 0))) 0 two_queued)) \<and>
   ((\<lambda>t. snd (release (Suc (Suc (Suc 0))) 0 t)) ^^ Suc (Suc 0)) two_queued
     = snd (release (Suc (Suc (Suc 0))) 0 two_queued)"
  using release_idempotent [of 0 two_queued 0 "Suc (Suc 0)" "Suc 0"] two_queued_facts
  by (simp only: simp_thms zero_less_numeral)

subsection \<open>The debug copy shares the arguments array\<close>

text \<open>
  C8 fails on the code. \<open>duplicateDebugData\<close> copies the properties of \<open>config\<close> one
  by one, so the \<open>arguments\<close> property of the debug object is the array that the
  request itself stores. Two runs from \<open>debug_queued\<close> that differ only in a write
  to that array through the debug object, \<open>release.debug.arguments.push( release )\<close>,
  before request 0 is released: without the write request 1 is started with no
  arguments and keeps running, and request 2 stays in the queue; with it request 1
  is started with its own release function, releases itself, and request 2 is
  started too.
\<close>

theorem debug_arguments_shared_with_request:
  "debug_arguments debug_queued 1 = Some (arguments (reqs debug_queued ! 1)) \<and>
   trace (snd (release 9 0 debug_queued))
     = [Invoke 0 [Token 0], Invoke 1 []] \<and>
   trace (snd (release 9 0 (write_debug_arguments 1 [Token 1] debug_queued)))
     = [Invoke 0 [Token 0], Invoke 1 [Token 1], Invoke 2 [Token 2]] \<and>
   queues (snd (release 9 0 debug_queued)) ''x'' = Some [2] \<and>
   queues (snd (release 9 0 (write_debug_arguments 1 [Token 1] debug_queued))) ''x'' = Some [] \<and>
   released (reqs (snd (release 9 0 debug_queued)) ! 1) = False \<and>
   released (reqs (snd (release 9 0 (write_debug_arguments 1 [Token 1] debug_queued))) ! 1) = True"
  unfolding debug_queued_def by code_simp

subsection \<open>The consumed total is the sum over the running requests\<close>

lemma sum_list_zero: "(\<And>x. x \<in> set xs \<Longrightarrow> f x = (0::int)) \<Longrightarrow> (\<Sum>x\<leftarrow>xs. f x) = 0"
  by (induction xs) auto

lemma sum_list_update_map:
  "i < length xs \<Longrightarrow> (\<Sum>x\<leftarrow>xs[i := y]. f x) = (\<Sum>x\<leftarrow>xs. f x) - f (xs ! i) + (f y :: int)"
proof (induction xs arbitrary: i)
  case Nil
  then show ?case by simp
next
  case (Cons x xs)
  then show ?case by (cases i) auto
qed

lemma running_sum_update:
  assumes "r < length (reqs s)" and "reqs s' = (reqs s)[r := q]"
  shows "running_sum s' c = running_sum s c
           - (if is_running c (reqs s ! r) then amount (reqs s ! r) else 0)
           + (if is_running c q then amount q else 0)"
  using assms by (simp add: running_sum_def sum_list_update_map)

lemma running_sum_append:
  assumes "reqs s' = reqs s @ [q]"
  shows "running_sum s' c = running_sum s c + (if is_running c q then amount q else 0)"
  using assms by (simp add: running_sum_def)

lemma running_sum_cong:
  assumes "length (reqs s') = length (reqs s)"
    and "\<And>r. r < length (reqs s) \<Longrightarrow> is_running c (reqs s' ! r) = is_running c (reqs s ! r)
           \<and> amount (reqs s' ! r) = amount (reqs s ! r)"
  shows "running_sum s' c = running_sum s c"
proof -
  have "map (\<lambda>q. if is_running c q then amount q else 0) (reqs s')
      = map (\<lambda>q. if is_running c q then amount q else 0) (reqs s)"
    using assms by (intro nth_equalityI) auto
  then show ?thesis by (simp add: running_sum_def)
qed

lemma running_sum_no_category:
  assumes "categories_ok s" and "defaults s c = None"
  shows "running_sum s c = 0"
  unfolding running_sum_def
proof (rule sum_list_zero)
  fix q assume "q \<in> set (reqs s)"
  then obtain r where "r < length (reqs s)" "q = reqs s ! r"
    by (auto simp: in_set_conv_nth)
  with assms have "category q \<noteq> c" by (auto simp: categories_ok_def)
  then show "(if is_running c q then amount q else 0) = 0" by (simp add: is_running_def)
qed

lemma createCategory_proj:
  assumes "c = fst (createCategory cat s)"
  shows "queues (snd (createCategory cat s)) = (if defaults s c = None then (queues s)(c \<mapsto> []) else queues s)"
    and "consumed (snd (createCategory cat s)) = (if defaults s c = None then (consumed s)(c \<mapsto> 0) else consumed s)"
    and "max' (snd (createCategory cat s)) = (if defaults s c = None then (max' s)(c \<mapsto> 1) else max' s)"
    and "defaults (snd (createCategory cat s)) = (if defaults s c = None then (defaults s)(c \<mapsto> initial_defaults) else defaults s)"
    and "categoryRunCount (snd (createCategory cat s)) = (if defaults s c = None then (categoryRunCount s)(c \<mapsto> 0) else categoryRunCount s)"
  using assms by (auto simp: createCategory_def Let_def split: option.splits)

lemma createCategory_defined [simp]:
  "defaults (snd (createCategory cat s)) (fst (createCategory cat s)) \<noteq> None"
  by (auto simp: createCategory_def Let_def split: option.splits)

lemma inv_createCategory:
  assumes "consistent s"
  shows "consistent (snd (createCategory cat s))"
proof -
  define c where "c = fst (createCategory cat s)"
  let ?s' = "snd (createCategory cat s)"
  note p = createCategory_proj [OF c_def]
  from assms have co: "categories_ok s" and qo: "queue_ok s" and so: "consumed_ok s"
    by (auto simp: consistent_def)
  have rs: "running_sum ?s' c' = running_sum s c'" for c'
    by (simp add: running_sum_def)
  have "categories_ok ?s'"
    using co by (auto simp: categories_ok_def p)
  moreover have "queue_ok ?s'"
    using qo by (auto simp: queue_ok_def p split: if_splits)
  moreover have "consumed_ok ?s'"
    using so running_sum_no_category [OF co, of c]
    by (auto simp: consumed_ok_def p rs num_at_def)
  ultimately show ?thesis by (simp add: consistent_def)
qed

lemma inv_cong:
  assumes "consistent s" and "reqs s' = reqs s" and "queues s' = queues s" and "consumed s' = consumed s"
    and "\<And>c. defaults s c \<noteq> None \<Longrightarrow> defaults s' c \<noteq> None"
  shows "consistent s'"
  using assms
  by (auto simp: consistent_def categories_ok_def queue_ok_def consumed_ok_def running_sum_def)

lemma queue_elems_update:
  assumes "\<forall>x\<in>set q. x < length xs \<and> P (xs ! x)" and "r \<notin> set q"
  shows "\<forall>x\<in>set q. x < length (xs[r := y]) \<and> P (xs[r := y] ! x)"
  using assms by (metis length_list_update nth_list_update_neq)

lemma queue_okD:
  "queue_ok s \<Longrightarrow> queues s c = Some q \<Longrightarrow>
     distinct q \<and> (\<forall>x\<in>set q. x < length (reqs s) \<and> category (reqs s ! x) = c
        \<and> inQueue (reqs s ! x) \<and> \<not> released (reqs s ! x))"
  by (simp add: queue_ok_def)

lemma inv_admit:
  assumes i: "consistent s" and q: "queues s c = Some (r # rest)" and l: "lookupReq s r = Some item"
  shows "consistent (admit c r rest item s)"
proof -
  let ?s' = "admit c r rest item s"
  from i have co: "categories_ok s" and qo: "queue_ok s" and so: "consumed_ok s"
    by (auto simp: consistent_def)
  from l have r: "r < length (reqs s)" and item: "item = reqs s ! r"
    by (auto simp: lookupReq_def split: if_splits)
  from qo q have "distinct (r # rest) \<and> (\<forall>x\<in>set (r # rest). x < length (reqs s)
      \<and> category (reqs s ! x) = c \<and> inQueue (reqs s ! x) \<and> \<not> released (reqs s ! x))"
    unfolding queue_ok_def by blast
  with item have h: "category item = c" "inQueue item" "\<not> released item"
    "distinct (r # rest)"
    by auto
  obtain item' where rq: "reqs ?s' = (reqs s)[r := item']"
    and same: "category item' = category item" "amount item' = amount item"
      "released item' = released item" "\<not> inQueue item'"
    by (auto simp: admit_def Let_def duplicateDebugData_def)
  have qs: "queues ?s' = (queues s)(c \<mapsto> rest)"
    and cs: "consumed ?s' = (consumed s)(c \<mapsto> num_at (consumed s) c + amount item)"
    and ds: "defaults ?s' = defaults s"
    by (simp_all add: admit_def Let_def)
  have cat: "category item' = category (reqs s ! r)" using same item by simp
  have "categories_ok ?s'"
    using co r cat by (auto simp: categories_ok_def rq ds nth_list_update)
  moreover have "queue_ok ?s'"
    unfolding queue_ok_def
  proof (intro allI impI)
    fix c' q' assume a: "queues ?s' c' = Some q'"
    show "distinct q' \<and> (\<forall>x\<in>set q'. x < length (reqs ?s') \<and> category (reqs ?s' ! x) = c'
        \<and> inQueue (reqs ?s' ! x) \<and> \<not> released (reqs ?s' ! x))"
    proof (cases "c' = c")
      case True
      with a qs have q': "q' = rest" by simp
      have n: "r \<notin> set q'" and d: "distinct q'" using h q' by simp_all
      have "\<forall>x\<in>set q'. x < length (reqs s) \<and> (category (reqs s ! x) = c'
          \<and> inQueue (reqs s ! x) \<and> \<not> released (reqs s ! x))"
        using queue_okD [OF qo q] True q' by simp
      from queue_elems_update [OF this n] d show ?thesis
        unfolding rq by blast
    next
      case False
      with a qs have old: "queues s c' = Some q'" by simp
      have n: "r \<notin> set q'"
        using queue_okD [OF qo old] h(1) item False by auto
      have "\<forall>x\<in>set q'. x < length (reqs s) \<and> (category (reqs s ! x) = c'
          \<and> inQueue (reqs s ! x) \<and> \<not> released (reqs s ! x))"
        using queue_okD [OF qo old] by simp
      from queue_elems_update [OF this n] queue_okD [OF qo old] show ?thesis
        unfolding rq by blast
    qed
  qed
  moreover have "consumed_ok ?s'"
    unfolding consumed_ok_def
  proof
    fix c'
    have "running_sum ?s' c' = running_sum s c'
           - (if is_running c' (reqs s ! r) then amount (reqs s ! r) else 0)
           + (if is_running c' item' then amount item' else 0)"
      using r rq by (rule running_sum_update)
    also have "\<dots> = running_sum s c' + (if c' = c then amount item else 0)"
      using h same item by (auto simp: is_running_def)
    finally show "num_at (consumed ?s') c' = running_sum ?s' c'"
      using so by (auto simp: consumed_ok_def cs num_at_def)
  qed
  ultimately show ?thesis by (simp add: consistent_def)
qed

lemma inv_release:
  assumes i: "consistent s" and l: "lookupReq s r = Some cfg" and nr: "\<not> released cfg"
  shows "consistent (releaseUpdate r cfg s)"
proof -
  let ?s' = "releaseUpdate r cfg s"
  let ?c = "category cfg"
  from i have co: "categories_ok s" and qo: "queue_ok s" and so: "consumed_ok s"
    by (auto simp: consistent_def)
  from l have r: "r < length (reqs s)" and cfg: "cfg = reqs s ! r"
    by (auto simp: lookupReq_def split: if_splits)
  define cfg' where "cfg' = (if debug cfg
      then duplicateDebugData (cfg\<lparr> running := False, completed := True, released := True \<rparr>)
      else cfg\<lparr> released := True \<rparr>)"
  have rq: "reqs ?s' = (reqs s)[r := cfg']"
    by (simp add: releaseUpdate_def Let_def cfg'_def)
  have same: "category cfg' = category cfg" "amount cfg' = amount cfg"
      "released cfg'" "inQueue cfg' = inQueue cfg"
    by (simp_all add: cfg'_def duplicateDebugData_def)
  have qs: "queues ?s' = (if inQueue cfg then (queues s)(?c := map_option (remove1 r) (queues s ?c))
                          else queues s)"
    and cs: "consumed ?s' = (if inQueue cfg then consumed s
                          else (consumed s)(?c \<mapsto> num_at (consumed s) ?c - amount cfg))"
    and ds: "defaults ?s' = defaults s"
    by (simp_all add: releaseUpdate_def Let_def)
  have cat: "category cfg' = category (reqs s ! r)" using same cfg by simp
  have "categories_ok ?s'"
    using co r cat by (auto simp: categories_ok_def rq ds nth_list_update)
  moreover have "queue_ok ?s'"
    unfolding queue_ok_def
  proof (intro allI impI)
    fix c' q' assume a: "queues ?s' c' = Some q'"
    have notin: "r \<notin> set q'"
    proof (cases "inQueue cfg")
      case True
      show ?thesis
      proof (cases "c' = ?c")
        case True
        with a qs \<open>inQueue cfg\<close> obtain q0 where q0: "queues s ?c = Some q0" "q' = remove1 r q0"
          by auto
        with queue_okD [OF qo q0(1)] show ?thesis by simp
      next
        case False
        with a qs have "queues s c' = Some q'" by (auto split: if_splits)
        from queue_okD [OF qo this] cfg False show ?thesis by auto
      qed
    next
      case False
      with a qs have "queues s c' = Some q'" by simp
      from queue_okD [OF qo this] cfg False show ?thesis by auto
    qed
    have "\<exists>q0. queues s c' = Some q0 \<and> set q' \<subseteq> set q0 \<and> (distinct q0 \<longrightarrow> distinct q')"
    proof (cases "inQueue cfg \<and> c' = ?c")
      case True
      with a qs obtain q0 where "queues s c' = Some q0" "q' = remove1 r q0"
        by auto
      then show ?thesis using set_remove1_subset [of r q0] by auto
    next
      case False
      with a qs have "queues s c' = Some q'" by (auto split: if_splits)
      then show ?thesis by auto
    qed
    then obtain q0 where q0: "queues s c' = Some q0" "set q' \<subseteq> set q0" "distinct q0 \<longrightarrow> distinct q'"
      by blast
    with queue_okD [OF qo q0(1)]
    have d: "distinct q'" and "\<forall>x\<in>set q'. x < length (reqs s) \<and> (category (reqs s ! x) = c'
          \<and> inQueue (reqs s ! x) \<and> \<not> released (reqs s ! x))"
      by auto
    from queue_elems_update [OF this(2) notin] d
    show "distinct q' \<and> (\<forall>x\<in>set q'. x < length (reqs ?s') \<and> category (reqs ?s' ! x) = c'
        \<and> inQueue (reqs ?s' ! x) \<and> \<not> released (reqs ?s' ! x))"
      unfolding rq by blast
  qed
  moreover have "consumed_ok ?s'"
    unfolding consumed_ok_def
  proof
    fix c'
    have "running_sum ?s' c' = running_sum s c'
           - (if is_running c' (reqs s ! r) then amount (reqs s ! r) else 0)
           + (if is_running c' cfg' then amount cfg' else 0)"
      using r rq by (rule running_sum_update)
    also have "\<dots> = running_sum s c' - (if c' = ?c \<and> \<not> inQueue cfg then amount cfg else 0)"
      using nr same cfg by (auto simp: is_running_def)
    finally show "num_at (consumed ?s') c' = running_sum ?s' c'"
      using so by (auto simp: consumed_ok_def cs num_at_def)
  qed
  ultimately show ?thesis by (simp add: consistent_def)
qed

lemma inv_push:
  assumes i: "consistent s" and d: "defaults s c \<noteq> None"
    and q: "category q = c" "inQueue q" "\<not> released q"
    and old: "old = (case queues s c of Some xs \<Rightarrow> xs | None \<Rightarrow> [])"
    and new: "new = length (reqs s) # old \<or> new = old @ [length (reqs s)]"
  shows "consistent (s\<lparr> reqs := reqs s @ [q], queues := (queues s)(c \<mapsto> new) \<rparr>)"
proof -
  let ?r = "length (reqs s)"
  let ?s' = "s\<lparr> reqs := reqs s @ [q], queues := (queues s)(c \<mapsto> new) \<rparr>"
  from i have co: "categories_ok s" and qo: "queue_ok s" and so: "consumed_ok s"
    by (auto simp: consistent_def)
  have oldok: "distinct old \<and> (\<forall>x\<in>set old. x < length (reqs s) \<and> category (reqs s ! x) = c
        \<and> inQueue (reqs s ! x) \<and> \<not> released (reqs s ! x))"
  proof (cases "queues s c")
    case None
    with old show ?thesis by simp
  next
    case (Some xs)
    with old queue_okD [OF qo Some] show ?thesis by simp
  qed
  have "categories_ok ?s'"
    using co d q by (auto simp: categories_ok_def nth_append less_Suc_eq)
  moreover have "queue_ok ?s'"
    unfolding queue_ok_def
  proof (intro allI impI)
    fix c' q' assume a: "queues ?s' c' = Some q'"
    show "distinct q' \<and> (\<forall>x\<in>set q'. x < length (reqs ?s') \<and> category (reqs ?s' ! x) = c'
        \<and> inQueue (reqs ?s' ! x) \<and> \<not> released (reqs ?s' ! x))"
    proof (cases "c' = c")
      case True
      with a have "q' = new" by simp
      with new oldok q True show ?thesis
        by (auto simp: nth_append)
    next
      case False
      with a have "queues s c' = Some q'" by simp
      from queue_okD [OF qo this] show ?thesis by (auto simp: nth_append)
    qed
  qed
  moreover have "consumed_ok ?s'"
    using so q by (auto simp: consumed_ok_def running_sum_def is_running_def)
  ultimately show ?thesis by (simp add: consistent_def)
qed

lemma inv_enqueue:
  assumes "consistent s"
  shows "consistent (snd (snd (enqueue f s)))"
proof -
  define c where "c = fst (createCategory (in_category f) s)"
  define s1 where "s1 = snd (createCategory (in_category f) s)"
  define s2 where "s2 = snd (resolveArguments (in_arguments f) (d_arguments (defaults_at s1 c)) s1)"
  have i1: "consistent s1" unfolding s1_def using assms by (rule inv_createCategory)
  have d1: "defaults s1 c \<noteq> None" unfolding s1_def c_def by simp
  have i2: "consistent s2" unfolding s2_def
    by (rule inv_cong [OF i1]) simp_all
  have d2: "defaults s2 c \<noteq> None" using d1 by (simp add: s2_def)
  show ?thesis
    unfolding enqueue_def Let_def split_beta snd_conv
    unfolding c_def [symmetric] s1_def [symmetric] s2_def [symmetric]
    by (rule inv_push [OF i2 d2]) (auto simp: duplicateDebugData_def)
qed

lemma inv_log [simp]: "consistent (log_event e s) = consistent s"
  by (simp add: log_event_def consistent_def categories_ok_def queue_ok_def consumed_ok_def
        running_sum_def)

lemma inv_defaults_update:
  assumes "consistent s" and "defaults s c \<noteq> None"
  shows "consistent (s\<lparr> defaults := (defaults s)(c \<mapsto> d) \<rparr>)"
  by (rule inv_cong [OF assms(1)]) auto

lemma inv_onDrain: "consistent s \<Longrightarrow> consistent (onDrain cat cb s)"
  unfolding onDrain_def split_beta Let_def
  by (rule inv_defaults_update) (simp_all add: inv_createCategory)

lemma inv_setDefaultCategory: "consistent s \<Longrightarrow> consistent (setDefaultCategory cat s)"
  unfolding setDefaultCategory_def split_beta Let_def
  by (rule inv_cong [OF inv_createCategory]) simp_all

lemma setCategoryDefaults_frame:
  "queues (setCategoryDefaults cat nd s) = queues (snd (createCategory cat s))"
  "consumed (setCategoryDefaults cat nd s) = consumed (snd (createCategory cat s))"
  unfolding setCategoryDefaults_def Let_def split_beta
  by (simp_all split: option.splits args_in.splits)

lemma setCategoryDefaults_defined:
  "defaults (snd (createCategory cat s)) c \<noteq> None \<Longrightarrow>
   defaults (setCategoryDefaults cat nd s) c \<noteq> None"
  unfolding setCategoryDefaults_def Let_def split_beta
  by (cases "nd_arguments nd") (auto split: args_in.splits)

lemma inv_setCategoryDefaults:
  assumes "consistent s"
  shows "consistent (setCategoryDefaults cat nd s)"
  by (rule inv_cong [OF inv_createCategory [OF assms, of cat]])
     (simp_all add: setCategoryDefaults_frame setCategoryDefaults_defined del: not_None_eq)

lemma inv_setMax:
  assumes "consistent s" and "createCategory cat s = (c, s1)"
  shows "consistent (s1\<lparr> max' := (max' s1)(c \<mapsto> amt) \<rparr>)"
proof -
  have "consistent s1" using inv_createCategory [OF assms(1), of cat] assms(2) by simp
  then show ?thesis by (rule inv_cong) simp_all
qed

lemma inv_write_debug_arguments: "consistent s \<Longrightarrow> consistent (write_debug_arguments r xs s)"
  by (cases "debug_arguments s r")
     (auto simp: write_debug_arguments_def intro: inv_cong)

lemma inv_write_debug:
  assumes "consistent s"
  shows "consistent (write_debug r g s)"
proof (cases "lookupReq s r")
  case None
  with assms show ?thesis by (simp add: write_debug_def)
next
  case (Some q)
  then have r: "r < length (reqs s)" and q: "q = reqs s ! r"
    by (auto simp: lookupReq_def split: if_splits)
  let ?q' = "q\<lparr> release_debug := map_option g (release_debug q) \<rparr>"
  have w: "write_debug r g s = s\<lparr> reqs := (reqs s)[r := ?q'] \<rparr>"
    using Some by (simp add: write_debug_def)
  have same: "category ((reqs s)[r := ?q'] ! x) = category (reqs s ! x)"
    "inQueue ((reqs s)[r := ?q'] ! x) = inQueue (reqs s ! x)"
    "released ((reqs s)[r := ?q'] ! x) = released (reqs s ! x)"
    "amount ((reqs s)[r := ?q'] ! x) = amount (reqs s ! x)" for x
    using r q by (cases "x = r"; simp)+
  from assms have co: "categories_ok s" and qo: "queue_ok s" and so: "consumed_ok s"
    by (auto simp: consistent_def)
  have "running_sum (write_debug r g s) c = running_sum s c" for c
    by (rule running_sum_cong) (simp_all add: w same is_running_def)
  then have "consumed_ok (write_debug r g s)"
    using so by (simp add: consumed_ok_def w)
  moreover have "categories_ok (write_debug r g s)"
    using co by (simp add: categories_ok_def w same)
  moreover have "queue_ok (write_debug r g s)"
    using qo by (simp add: queue_ok_def w same)
  ultimately show ?thesis by (simp add: consistent_def)
qed

lemma basic_inv: "basic s s' \<Longrightarrow> consistent s \<Longrightarrow> consistent s'"
proof (induction rule: basic.induct)
  case (b_admit s c r rest item s1)
  then show ?case by (simp add: inv_admit)
qed (simp_all add: inv_createCategory inv_release inv_enqueue inv_setMax inv_onDrain
       inv_setDefaultCategory inv_setCategoryDefaults inv_write_debug_arguments inv_write_debug)


lemma inv_init: "consistent init_state"
  by (simp add: consistent_def init_state_def categories_ok_def queue_ok_def consumed_ok_def
        running_sum_def num_at_def)





subsection \<open>First in, first out\<close>

lemma log_event_frame [simp]:
  "queues (log_event e s) = queues s"
  "consumed (log_event e s) = consumed s"
  "max' (log_event e s) = max' s"
  "defaults (log_event e s) = defaults s"
  "arrays (log_event e s) = arrays s"
  by (simp_all add: log_event_def)

lemma fifo_line_cong:
  assumes "\<And>r. fifo_member s' c r = fifo_member s c r"
    and "starts s' = starts s" and "queue_of s' c = queue_of s c"
  shows "fifo_line s' c = fifo_line s c"
  using assms by (simp add: fifo_line_def cong: filter_cong)

lemma fifo_member_cong:
  assumes "length (reqs s') = length (reqs s)"
    and "\<And>r. r < length (reqs s) \<Longrightarrow> category (reqs s' ! r) = category (reqs s ! r)
            \<and> unshift (reqs s' ! r) = unshift (reqs s ! r)"
  shows "fifo_member s' c r = fifo_member s c r"
  using assms by (auto simp: fifo_member_def)

lemma fifo_ok_cong:
  assumes "fifo_ok s" and "reqs s' = reqs s" and "starts s' = starts s"
    and "queues s' = queues s"
  shows "fifo_ok s'"
proof -
  have "fifo_member s' c = fifo_member s c" for c
    using assms(2) by (intro ext) (simp add: fifo_member_def)
  then have "fifo_line s' c = fifo_line s c" for c
    using assms(3,4) by (simp add: fifo_line_def queue_of_def)
  with assms(1) show ?thesis by (simp add: fifo_ok_def)
qed

lemma started_frame [simp]:
  "starts (snd (createCategory cat s)) = starts s"
  "starts (snd (resolveArguments ai d s)) = starts s"
  "starts (releaseUpdate r cfg s) = starts s"
  "starts (onDrain cat cb s) = starts s"
  "starts (setDefaultCategory cat s) = starts s"
  "starts (setCategoryDefaults cat nd s) = starts s"
  "starts (write_debug_arguments r xs s) = starts s"
  "starts (write_debug r g s) = starts s"
  "starts (snd (snd (enqueue f s))) = starts s"
  "starts (log_event (Drained c) s) = starts s"
  "starts (s\<lparr> reqs := rq \<rparr>) = starts s"
  "starts (s\<lparr> queues := qu \<rparr>) = starts s"
  "starts (s\<lparr> max' := m \<rparr>) = starts s"
  "starts (s\<lparr> arrays := ar \<rparr>) = starts s"
  "starts (s\<lparr> defaults := df \<rparr>) = starts s"
  "starts (s\<lparr> defaultCategory := dc \<rparr>) = starts s"
  by (simp_all add: starts_def releaseUpdate_def onDrain_def setDefaultCategory_def
        setCategoryDefaults_def write_debug_arguments_def write_debug_def enqueue_def
        log_event_def started_of_def Let_def split_beta
        split: option.splits args_in.splits)

lemma sorted_wrt_filter_prefix:
  "sorted_wrt (<) (filter P (xs @ ys)) \<Longrightarrow> sorted_wrt (<) (filter P (xs @ []))"
  by (simp add: sorted_wrt_append)

lemma fifo_createCategory:
  assumes "fifo_ok s"
  shows "fifo_ok (snd (createCategory cat s))"
proof -
  define c where "c = fst (createCategory cat s)"
  let ?s' = "snd (createCategory cat s)"
  note p = createCategory_proj [OF c_def]
  have m: "fifo_member ?s' c' = fifo_member s c'" for c'
    by (intro ext) (simp add: fifo_member_def)
  have st: "starts ?s' = starts s" by (simp add: starts_def)
  show ?thesis
    unfolding fifo_ok_def
  proof
    fix c'
    have "sorted_wrt (<) (fifo_line s c')" using assms by (simp add: fifo_ok_def)
    moreover have "queue_of ?s' c' = queue_of s c' \<or> queue_of ?s' c' = []"
      by (auto simp: queue_of_def p)
    ultimately show "sorted_wrt (<) (fifo_line ?s' c')"
      by (auto simp: fifo_line_def m st sorted_wrt_append)
  qed
qed

lemma fifo_admit:
  assumes f: "fifo_ok s" and i: "consistent s"
    and q: "queues s c = Some (r # rest)" and l: "lookupReq s r = Some item"
  shows "fifo_ok (log_event (Invoke r args) (admit c r rest item s))"
proof -
  let ?s' = "log_event (Invoke r args) (admit c r rest item s)"
  from l have r: "r < length (reqs s)" and item: "item = reqs s ! r"
    by (auto simp: lookupReq_def split: if_splits)
  from i have qo: "queue_ok s" by (simp add: consistent_def)
  from queue_okD [OF qo q] have cat: "category (reqs s ! r) = c" by simp
  obtain item' where rq: "reqs ?s' = (reqs s)[r := item']"
    and same: "category item' = category item" "unshift item' = unshift item"
    by (auto simp: admit_def Let_def duplicateDebugData_def log_event_def)
  have "fifo_member ?s' c' x = fifo_member s c' x" for c' x
    unfolding fifo_member_def rq using r same item by (cases "x = r") auto
  then have m: "fifo_member ?s' c' = fifo_member s c'" for c' by (intro ext)
  have old: "queue_of s c = r # rest" using q by (simp add: queue_of_def)
  have st: "starts ?s' = starts s @ [r]"
    by (simp add: starts_def log_event_def admit_def Let_def started_of_def)
  have qs: "queue_of ?s' c' = (if c' = c then rest else queue_of s c')" for c'
    by (simp add: queue_of_def log_event_def admit_def Let_def)
  have "fifo_line ?s' c' = fifo_line s c'" for c'
  proof (cases "c' = c")
    case True
    then show ?thesis by (simp add: fifo_line_def m st qs old)
  next
    case False
    with cat r have "\<not> fifo_member s c' r" by (auto simp: fifo_member_def)
    with False show ?thesis by (simp add: fifo_line_def m st qs)
  qed
  with f show ?thesis by (simp add: fifo_ok_def)
qed

lemma in_remove1D: "x \<in> set (remove1 r q) \<Longrightarrow> x \<in> set q"
  using set_remove1_subset [of r q] by blast

lemma sorted_wrt_filter_remove1:
  assumes "sorted_wrt (<) (filter P (xs @ q))"
  shows "sorted_wrt (<) (filter P (xs @ remove1 (r::nat) q))"
proof -
  have "sorted_wrt (<) (filter P q)" and "sorted_wrt (<) (filter P xs)"
    and ord: "\<forall>x\<in>set (filter P xs). \<forall>y\<in>set (filter P q). x < y"
    using assms by (auto simp: sorted_wrt_append)
  have "\<And>P. sorted_wrt (<) (filter P q) \<Longrightarrow> sorted_wrt (<) (filter P (remove1 r q))"
  proof (induction q)
    case Nil
    then show ?case by simp
  next
    case (Cons a q)
    show ?case
    proof (cases "a = r")
      case True
      with Cons.prems show ?thesis by (cases "P a") auto
    next
      case False
      with Cons show ?thesis
        by (cases "P a") (auto dest: in_remove1D)
    qed
  qed
  from this [OF \<open>sorted_wrt (<) (filter P q)\<close>] \<open>sorted_wrt (<) (filter P xs)\<close> ord
  show ?thesis
    by (auto simp: sorted_wrt_append dest: in_remove1D)
qed

lemma fifo_release:
  assumes f: "fifo_ok s" and l: "lookupReq s r = Some cfg"
  shows "fifo_ok (releaseUpdate r cfg s)"
proof -
  let ?s' = "releaseUpdate r cfg s"
  from l have r: "r < length (reqs s)" and cfg: "cfg = reqs s ! r"
    by (auto simp: lookupReq_def split: if_splits)
  define cfg' where "cfg' = (if debug cfg
      then duplicateDebugData (cfg\<lparr> running := False, completed := True, released := True \<rparr>)
      else cfg\<lparr> released := True \<rparr>)"
  have rq: "reqs ?s' = (reqs s)[r := cfg']"
    by (simp add: releaseUpdate_def Let_def cfg'_def)
  have same: "category cfg' = category cfg" "unshift cfg' = unshift cfg"
    by (simp_all add: cfg'_def duplicateDebugData_def)
  have "fifo_member ?s' c' x = fifo_member s c' x" for c' x
    unfolding fifo_member_def rq using r same cfg by (cases "x = r") auto
  then have m: "fifo_member ?s' c' = fifo_member s c'" for c' by (intro ext)
  have st: "starts ?s' = starts s"
    by (simp add: starts_def releaseUpdate_def Let_def)
  have qs: "queue_of ?s' c' = queue_of s c' \<or> queue_of ?s' c' = remove1 r (queue_of s c')" for c'
    by (auto simp: queue_of_def releaseUpdate_def Let_def split: option.splits)
  show ?thesis
    unfolding fifo_ok_def
  proof
    fix c'
    have "sorted_wrt (<) (fifo_line s c')" using f by (simp add: fifo_ok_def)
    with qs [of c'] show "sorted_wrt (<) (fifo_line ?s' c')"
      by (auto simp: fifo_line_def m st simp del: filter_append dest: sorted_wrt_filter_remove1)
  qed
qed


lemma fifo_push:
  assumes f: "fifo_ok s" and i: "consistent s" and so: "started_ok s"
    and c: "category q = c"
    and new: "new = (if unshift q then length (reqs s) # queue_of s c
                     else queue_of s c @ [length (reqs s)])"
  shows "fifo_ok (s\<lparr> reqs := reqs s @ [q], queues := (queues s)(c \<mapsto> new) \<rparr>)"
proof -
  let ?r = "length (reqs s)"
  let ?s' = "s\<lparr> reqs := reqs s @ [q], queues := (queues s)(c \<mapsto> new) \<rparr>"
  from i have qo: "queue_ok s" by (simp add: consistent_def)
  have m: "fifo_member ?s' c' x = (if x = ?r then c' = c \<and> \<not> unshift q else fifo_member s c' x)"
    for c' x
    using c by (auto simp: fifo_member_def nth_append)
  have st: "starts ?s' = starts s" by simp
  have qn: "queue_of ?s' c = new" by (simp add: queue_of_def)
  have qk: "queue_of ?s' c' = queue_of s c'" if "c' \<noteq> c" for c'
    using that by (simp add: queue_of_def)
  have below: "x < ?r" if "x \<in> set (starts s @ queue_of s c')" for x c'
  proof (cases "x \<in> set (starts s)")
    case True
    with so show ?thesis by (simp add: started_ok_def)
  next
    case False
    with that obtain q0 where "queues s c' = Some q0" "x \<in> set q0"
      by (cases "queues s c'") (auto simp: queue_of_def)
    with queue_okD [OF qo this(1)] show ?thesis by simp
  qed
  have keep: "filter (fifo_member ?s' c') (starts s @ queue_of s c') = fifo_line s c'" for c'
    unfolding fifo_line_def
    by (rule filter_cong [OF refl]) (use below [of _ c'] in \<open>auto simp: m\<close>)
  show ?thesis
    unfolding fifo_ok_def
  proof
    fix c'
    have old: "sorted_wrt (<) (fifo_line s c')" using f by (simp add: fifo_ok_def)
    show "sorted_wrt (<) (fifo_line ?s' c')"
    proof (cases "c' = c")
      case False
      then have "fifo_line ?s' c' = filter (fifo_member ?s' c') (starts s @ queue_of s c')"
        by (simp only: fifo_line_def st qk [OF False])
      with keep old show ?thesis by simp
    next
      case True
      show ?thesis
      proof (cases "unshift q")
        case u: True
        have "fifo_line ?s' c = filter (fifo_member ?s' c) (starts s @ new)"
          by (simp only: fifo_line_def st qn)
        also have "new = ?r # queue_of s c" using u new by simp
        then have "filter (fifo_member ?s' c) (starts s @ new)
            = filter (fifo_member ?s' c) (starts s @ ?r # queue_of s c)"
          by (rule arg_cong [where f = "\<lambda>z. filter (fifo_member ?s' c) (starts s @ z)"])
        also have "\<dots> = filter (fifo_member ?s' c) (starts s @ queue_of s c)"
          using u by (simp add: m)
        finally show ?thesis using keep old True by simp
      next
        case u: False
        have l1: "fifo_line ?s' c = filter (fifo_member ?s' c) (starts s @ new)"
          by (simp only: fifo_line_def st qn)
        have "new = queue_of s c @ [?r]" using u new by simp
        then have l2: "filter (fifo_member ?s' c) (starts s @ new)
            = filter (fifo_member ?s' c) ((starts s @ queue_of s c) @ [?r])"
          unfolding append_assoc
          by (rule arg_cong [where f = "\<lambda>z. filter (fifo_member ?s' c) (starts s @ z)"])
        have l3: "filter (fifo_member ?s' c) ((starts s @ queue_of s c) @ [?r])
            = filter (fifo_member ?s' c) (starts s @ queue_of s c) @ filter (fifo_member ?s' c) [?r]"
          by (rule filter_append)
        have l4: "filter (fifo_member ?s' c) [?r] = [?r]" using u by (simp add: m)
        have "fifo_line ?s' c = fifo_line s c @ [?r]"
          by (simp only: l1 l2 l3 l4 keep)
        moreover have "\<forall>x\<in>set (fifo_line s c). x < ?r"
          by (auto simp: fifo_line_def fifo_member_def)
        ultimately show ?thesis using old True by (simp add: sorted_wrt_append)
      qed
    qed
  qed
qed

lemma started_ok_basic:
  assumes "basic s s'" and "started_ok s"
  shows "started_ok s'"
proof -
  from assms(1) have g: "length (reqs s) \<le> length (reqs s')"
    using basic_grows by (auto simp: grows_def)
  from assms(1) have "starts s' = starts s \<or> (\<exists>r < length (reqs s). starts s' = starts s @ [r])"
  proof (cases rule: basic.cases)
    case (b_admit c r rest item s1)
    then show ?thesis
      by (auto simp: starts_def log_event_def admit_def Let_def started_of_def lookupReq_def
            split: if_splits)
  next
    case (b_setMax amt cat c s1)
    then have "starts s1 = starts s" using started_frame(1) [of cat s] by simp
    with b_setMax show ?thesis by (simp add: starts_def)
  qed simp_all
  then have "\<forall>x\<in>set (starts s'). x \<in> set (starts s) \<or> x < length (reqs s)" by auto
  with assms(2) have "\<forall>x\<in>set (starts s'). x < length (reqs s)"
    by (auto simp: started_ok_def)
  with g show ?thesis unfolding started_ok_def using less_le_trans by blast
qed

lemma fifo_enqueue:
  assumes "fifo_ok s" and "consistent s" and "started_ok s"
  shows "fifo_ok (snd (snd (enqueue f s)))"
proof -
  define c where "c = fst (createCategory (in_category f) s)"
  define s1 where "s1 = snd (createCategory (in_category f) s)"
  define s2 where "s2 = snd (resolveArguments (in_arguments f) (d_arguments (defaults_at s1 c)) s1)"
  have f1: "fifo_ok s1" unfolding s1_def using assms(1) by (rule fifo_createCategory)
  have i1: "consistent s1" unfolding s1_def using assms(2) by (rule inv_createCategory)
  have o1: "started_ok s1" using assms(3) by (simp add: s1_def started_ok_def)
  have f2: "fifo_ok s2" unfolding s2_def by (rule fifo_ok_cong [OF f1]) simp_all
  have i2: "consistent s2" unfolding s2_def by (rule inv_cong [OF i1]) simp_all
  have o2: "started_ok s2" using o1 by (simp add: s2_def started_ok_def)
  show ?thesis
    unfolding enqueue_def Let_def split_beta snd_conv
    unfolding c_def [symmetric] s1_def [symmetric] s2_def [symmetric]
    by (rule fifo_push [OF f2 i2 o2]) (auto simp: duplicateDebugData_def queue_of_def)
qed

lemma fifo_basic:
  assumes "basic s s'" and "fifo_ok s" and "consistent s" and "started_ok s"
  shows "fifo_ok s'"
  using assms
proof (induction rule: basic.induct)
  case (b_create s cat)
  then show ?case by (simp add: fifo_createCategory)
next
  case (b_drain s c)
  show ?case by (rule fifo_ok_cong [OF b_drain(3)]) simp_all
next
  case (b_admit s c r rest item s1)
  then show ?case by (simp add: fifo_admit)
next
  case (b_release s r cfg)
  then show ?case by (simp add: fifo_release)
next
  case (b_enqueue s f)
  then show ?case by (simp add: fifo_enqueue)
next
  case (b_setMax amt cat s c s1)
  have "fifo_ok s1" using fifo_createCategory [OF b_setMax(3), of cat] b_setMax(2) by simp
  then show ?case by (rule fifo_ok_cong) simp_all
next
  case (b_onDrain s cat cb)
  show ?case
    by (rule fifo_ok_cong [OF fifo_createCategory [OF b_onDrain(1), of cat]])
       (simp_all add: onDrain_def split_beta Let_def)
next
  case (b_setDefaultCategory s cat)
  show ?case
    by (rule fifo_ok_cong [OF fifo_createCategory [OF b_setDefaultCategory(1), of cat]])
       (simp_all add: setDefaultCategory_def split_beta Let_def)
next
  case (b_setCategoryDefaults s cat nd)
  show ?case
    by (rule fifo_ok_cong [OF fifo_createCategory [OF b_setCategoryDefaults(1), of cat]])
       (simp_all add: setCategoryDefaults_frame)
next
  case (b_write_arguments s r xs)
  then show ?case
    by (cases "debug_arguments s r") (auto simp: write_debug_arguments_def intro: fifo_ok_cong)
next
  case (b_write_debug s r g)
  show ?case
  proof (cases "lookupReq s r")
    case None
    with b_write_debug show ?thesis by (simp add: write_debug_def)
  next
    case (Some q)
    then have r: "r < length (reqs s)" and q: "q = reqs s ! r"
      by (auto simp: lookupReq_def split: if_splits)
    let ?q' = "q\<lparr> release_debug := map_option g (release_debug q) \<rparr>"
    have w: "write_debug r g s = s\<lparr> reqs := (reqs s)[r := ?q'] \<rparr>"
      using Some by (simp add: write_debug_def)
    have "fifo_member (write_debug r g s) c x = fifo_member s c x" for c x
      unfolding w fifo_member_def using r q by (cases "x = r") auto
    then have "fifo_member (write_debug r g s) c = fifo_member s c" for c by (intro ext)
    then have "fifo_line (write_debug r g s) c = fifo_line s c" for c
      by (simp add: fifo_line_def queue_of_def w)
    with b_write_debug show ?thesis by (simp add: fifo_ok_def)
  qed
qed

lemma fifo_inv_basic: "basic s s' \<Longrightarrow> fifo_inv s \<Longrightarrow> fifo_inv s'"
  by (simp add: fifo_inv_def basic_inv started_ok_basic fifo_basic)

lemma fifo_inv_steps: "basic\<^sup>*\<^sup>* s s' \<Longrightarrow> fifo_inv s \<Longrightarrow> fifo_inv s'"
  by (induction rule: rtranclp_induct) (auto intro: fifo_inv_basic)

lemma fifo_inv_init: "fifo_inv init_state"
  using inv_init
  by (simp add: fifo_inv_def started_ok_def starts_def fifo_ok_def fifo_line_def
        queue_of_def init_state_def)

lemma reachable_fifo_inv: "reachable s \<Longrightarrow> fifo_inv s"
proof (induction rule: reachable.induct)
  case reach_init
  show ?case by (rule fifo_inv_init)
next
  case (reach_call s n acts)
  have "basic\<^sup>*\<^sup>* s (snd (call_user n acts s))" using steps_all by blast
  then show ?case using reach_call.IH by (rule fifo_inv_steps)
next
  case (reach_write_arguments s r xs)
  then show ?case using fifo_inv_basic [OF b_write_arguments] by blast
next
  case (reach_write_debug s r g)
  then show ?case using fifo_inv_basic [OF b_write_debug] by blast
qed

lemma next_blocked:
  assumes "queues s c = Some (h # rest)" and "h < length (reqs s)"
    and "num_at (consumed s) c + amount (reqs s ! h) > num_at (max' s) c"
  shows "snd (next' n c s) = s"
  using assms by (cases n) (simp_all add: lookupReq_def)

text \<open>
  C4. In every reachable state, for two requests \<open>a\<close> and \<open>b\<close> of the same category,
  both submitted with \<open>unshift\<close> false, \<open>a\<close> before \<open>b\<close>: once \<open>b\<close> has been started,
  \<open>a\<close> is not started later and is not waiting in the queue, so if both are started
  then \<open>a\<close> is started first. And a sweep that finds a head that does not fit under
  the maximum leaves the whole state as it is: it starts no request behind the head.
\<close>

theorem fifo_order:
  "(reachable s \<longrightarrow> a < b \<longrightarrow> b < length (reqs s) \<longrightarrow>
      category (reqs s ! a) = category (reqs s ! b) \<longrightarrow>
      \<not> unshift (reqs s ! a) \<longrightarrow> \<not> unshift (reqs s ! b) \<longrightarrow>
      starts s = xs @ b # ys \<longrightarrow>
      a \<notin> set ys \<and> a \<notin> set (queue_of s (category (reqs s ! b)))) \<and>
   (queues s c = Some (h # rest) \<longrightarrow> h < length (reqs s) \<longrightarrow>
      num_at (consumed s) c + amount (reqs s ! h) > num_at (max' s) c \<longrightarrow>
      snd (next' n c s) = s)"
proof (intro conjI impI)
  assume r: "reachable s" and ab: "a < b" "b < length (reqs s)"
    and cat: "category (reqs s ! a) = category (reqs s ! b)"
    and u: "\<not> unshift (reqs s ! a)" "\<not> unshift (reqs s ! b)"
    and st: "starts s = xs @ b # ys"
  let ?c = "category (reqs s ! b)"
  let ?M = "fifo_member s ?c"
  from reachable_fifo_inv [OF r] have "sorted_wrt (<) (fifo_line s ?c)"
    by (simp add: fifo_inv_def fifo_ok_def)
  moreover have mb: "?M b" and ma: "?M a" using ab cat u by (simp_all add: fifo_member_def)
  ultimately have "sorted_wrt (<) (filter ?M xs @ b # filter ?M (ys @ queue_of s ?c))"
    by (simp add: fifo_line_def st)
  then have later: "b < x" if "x \<in> set ys \<union> set (queue_of s ?c)" "?M x" for x
    using that by (auto simp: sorted_wrt_append)
  from later [of a] ma ab show "a \<notin> set ys" by auto
  from later [of a] ma ab show "a \<notin> set (queue_of s ?c)" by auto
next
  assume "queues s c = Some (h # rest)" "h < length (reqs s)"
    "num_at (consumed s) c + amount (reqs s ! h) > num_at (max' s) c"
  then show "snd (next' n c s) = s" by (rule next_blocked)
qed


lemma two_started_facts:
  "starts two_started = [0, 1]"
  "length (reqs two_started) = 2"
  "category (reqs two_started ! 0) = ''x''"
  "category (reqs two_started ! 1) = ''x''"
  "\<not> unshift (reqs two_started ! 0)"
  "\<not> unshift (reqs two_started ! 1)"
  "queue_of two_started ''x'' = []"
  "amount (reqs two_queued ! 1) = 1"
  "num_at (max' two_queued) ''x'' = 1"
  unfolding two_started_def two_queued_def by code_simp+

theorem fifo_order_witness:
  "reachable two_started \<and> starts two_started = [0] @ 1 # [] \<and>
   category (reqs two_started ! 0) = category (reqs two_started ! 1) \<and>
   \<not> unshift (reqs two_started ! 0) \<and> \<not> unshift (reqs two_started ! 1) \<and>
   0 \<notin> set (queue_of two_started ''x'') \<and>
   queues two_queued ''x'' = Some [1] \<and>
   num_at (consumed two_queued) ''x'' + amount (reqs two_queued ! 1) > num_at (max' two_queued) ''x'' \<and>
   snd (next' 5 ''x'' two_queued) = two_queued"
proof -
  have r: "reachable two_started"
    unfolding two_started_def by (rule reach_call [OF reach_init])
  from fifo_order [of two_started 0 1 "[0]" "[]" "''x''" 0 "[]" 0]
       fifo_order [of two_queued 0 0 "[]" "[]" "''x''" 1 "[]" 5]
       r two_started_facts two_queued_facts
  show ?thesis by simp
qed

subsection \<open>Raising the maximum starts what fits\<close>






lemma settled_cong:
  assumes "settled s c" and "queues s' c = queues s c" and "consumed s' c = consumed s c"
    and "max' s' c = max' s c"
    and "\<And>h x. lookupReq s h = Some x \<Longrightarrow> \<exists>y. lookupReq s' h = Some y \<and> amount y = amount x"
  shows "settled s' c"
proof (cases "queues s c")
  case None
  with assms(2) show ?thesis by (simp add: settled_def)
next
  case (Some q)
  show ?thesis
  proof (cases q)
    case Nil
    with Some assms(2) show ?thesis by (simp add: settled_def)
  next
    case (Cons h rest)
    with Some assms(1) obtain x where x: "lookupReq s h = Some x"
      "num_at (consumed s) c + amount x > num_at (max' s) c"
      by (auto simp: settled_def split: option.splits)
    from assms(5) [OF x(1)] obtain y where "lookupReq s' h = Some y" "amount y = amount x"
      by blast
    with x Some Cons assms(2-4) show ?thesis
      by (simp add: settled_def num_at_def)
  qed
qed

lemma settled_empty: "queues s c = Some [] \<Longrightarrow> settled s c"
  by (simp add: settled_def)

lemma lookupReq_Some:
  "(lookupReq s h = Some x) = (h < length (reqs s) \<and> x = reqs s ! h)"
  by (auto simp: lookupReq_def)

lemma lookup_same_reqs:
  "reqs s' = reqs s \<Longrightarrow> lookupReq s h = Some x \<Longrightarrow> \<exists>y. lookupReq s' h = Some y \<and> amount y = amount x"
  by (simp add: lookupReq_Some)

lemma settled_createCategory:
  assumes "settled s c'"
  shows "settled (snd (createCategory cat s)) c'"
proof -
  define c where "c = fst (createCategory cat s)"
  note p = createCategory_proj [OF c_def]
  show ?thesis
  proof (cases "c' = c \<and> defaults s c = None")
    case True
    then show ?thesis by (intro settled_empty) (simp add: p)
  next
    case False
    show ?thesis
      by (rule settled_cong [OF assms]) (use False in \<open>auto simp: p lookupReq_Some\<close>)
  qed
qed

lemma settled_created:
  "settled s c' \<or> c' = fst (createCategory cat s) \<and> defaults s c' = None
     \<Longrightarrow> settled (snd (createCategory cat s)) c'"
  using settled_createCategory [of s c' cat]
        createCategory_proj(1) [OF refl, of cat s]
  by (auto intro: settled_empty)












end
